theory Spec2Isabelle
  imports Main
begin

section \<open>Values decoded from JSON\<close>

text \<open>
  The program is a Python script (\<^verbatim>\<open>smart-leak-analyzer.py\<close>). Texts that it reads from
  the network (\<^verbatim>\<open>res.text\<close>, the completion's \<^verbatim>\<open>message.content\<close>) are modelled as
  \<^typ>\<open>string\<close>, one \<^typ>\<open>char\<close> per code point (code points up to 255). Strings decoded
  from JSON can hold any code point (a \<^verbatim>\<open>\\uXXXX\<close> escape), so they are lists of code
  points; \<open>ustr\<close> turns a literal into one.

  Python's \<^verbatim>\<open>None\<close> and JSON's \<^verbatim>\<open>null\<close> are the same value, \<open>JNull\<close>. A Python
  \<^verbatim>\<open>int\<close> is unbounded. A \<^verbatim>\<open>float\<close> is kept as the decimal the literal denotes,
  \<open>Dec m e\<close> for \<open>m * 10 ^ e\<close>: rounding to binary64 is not modelled. A \<^verbatim>\<open>dict\<close> is an
  association list with distinct keys in insertion order.
\<close>

type_synonym ustring = "nat list"

definition ustr :: "string \<Rightarrow> ustring" where
  "ustr s = map of_char s"

datatype pyfloat = Dec int int | NaN | Infinity | NegInfinity

datatype json =
    JNull
  | JBool bool
  | JInt int
  | JFloat pyfloat
  | JStr ustring
  | JArr "json list"
  | JObj "(ustring \<times> json) list"

type_synonym dict = "(ustring \<times> json) list"

text \<open>\<^verbatim>\<open>bool(x)\<close>, the test behind \<^verbatim>\<open>if x:\<close> and \<^verbatim>\<open>not x\<close>.\<close>

fun py_truthy :: "json \<Rightarrow> bool" where
  "py_truthy JNull = False"
| "py_truthy (JBool b) = b"
| "py_truthy (JInt i) = (i \<noteq> 0)"
| "py_truthy (JFloat (Dec m e)) = (m \<noteq> 0)"
| "py_truthy (JFloat f) = True"
| "py_truthy (JStr s) = (s \<noteq> [])"
| "py_truthy (JArr xs) = (xs \<noteq> [])"
| "py_truthy (JObj d) = (d \<noteq> [])"

text \<open>\<^verbatim>\<open>a or b\<close>.\<close>

definition py_or :: "json \<Rightarrow> json \<Rightarrow> json" where
  "py_or a b = (if py_truthy a then a else b)"

text \<open>\<^verbatim>\<open>bool(s)\<close> for a value that is a \<^verbatim>\<open>str\<close> or \<^verbatim>\<open>None\<close>.\<close>

fun str_truthy :: "string option \<Rightarrow> bool" where
  "str_truthy None = False"
| "str_truthy (Some s) = (s \<noteq> [])"

text \<open>\<^verbatim>\<open>d.get(k, default)\<close> on a dict, and \<^verbatim>\<open>d[k] = v\<close>.\<close>

definition dict_get :: "dict \<Rightarrow> ustring \<Rightarrow> json \<Rightarrow> json" where
  "dict_get d k dflt = (case map_of d k of None \<Rightarrow> dflt | Some v \<Rightarrow> v)"

fun dict_set :: "dict \<Rightarrow> ustring \<Rightarrow> json \<Rightarrow> dict" where
  "dict_set [] k v = [(k, v)]"
| "dict_set ((k', v') # d) k v =
     (if k' = k then (k', v) # d else (k', v') # dict_set d k v)"

text \<open>\<^verbatim>\<open>dict(pairs)\<close>: the pairs are stored one after the other.\<close>

definition dict_of_pairs :: "(ustring \<times> json) list \<Rightarrow> dict" where
  "dict_of_pairs pairs = foldl (\<lambda>d (k, v). dict_set d k v) [] pairs"

text \<open>
  \<^verbatim>\<open>x.get(k, default)\<close> on any decoded value: only a dict has the method, every other
  value raises \<^verbatim>\<open>AttributeError\<close> (\<open>None\<close> here).
\<close>

fun py_get :: "json \<Rightarrow> ustring \<Rightarrow> json \<Rightarrow> json option" where
  "py_get (JObj d) k dflt = Some (dict_get d k dflt)"
| "py_get _ k dflt = None"

text \<open>\<^verbatim>\<open>len(x)\<close>: \<^verbatim>\<open>TypeError\<close> (\<open>None\<close>) for a value without a length.\<close>

fun py_len :: "json \<Rightarrow> nat option" where
  "py_len (JStr s) = Some (length s)"
| "py_len (JArr xs) = Some (length xs)"
| "py_len (JObj d) = Some (length d)"
| "py_len _ = None"

text \<open>\<^verbatim>\<open>x[:n]\<close>: a list or a string can be sliced, anything else raises.\<close>

fun py_slice :: "json \<Rightarrow> nat \<Rightarrow> json option" where
  "py_slice (JArr xs) n = Some (JArr (take n xs))"
| "py_slice (JStr s) n = Some (JStr (take n s))"
| "py_slice _ n = None"

text \<open>
  The values a \<^verbatim>\<open>for\<close> loop draws from \<^verbatim>\<open>x\<close>: the elements of a list, the characters
  of a string, the keys of a dict; anything else is not iterable.
\<close>

fun py_iter :: "json \<Rightarrow> json list option" where
  "py_iter (JArr xs) = Some xs"
| "py_iter (JStr s) = Some (map (\<lambda>c. JStr [c]) s)"
| "py_iter (JObj d) = Some (map (\<lambda>(k, v). JStr k) d)"
| "py_iter _ = None"

section \<open>The library call \<^verbatim>\<open>json.loads\<close>\<close>

text \<open>
  \<^verbatim>\<open>json.loads\<close> belongs to Python's standard library, not to the repository. It is
  modelled after the library's decoder: white space is blank, tab, line feed and carriage
  return; a string ends at the first unescaped quote, rejects control characters and
  knows the escapes \<^verbatim>\<open>" \\ / b f n r t uXXXX\<close> (a surrogate pair is joined); a number is
  \<^verbatim>\<open>-?(0|[1-9][0-9]*)(\\.[0-9]+)?([eE][-+]?[0-9]+)?\<close>, an \<^verbatim>\<open>int\<close> without fraction and
  exponent and a \<^verbatim>\<open>float\<close> otherwise; the literals are \<^verbatim>\<open>null true false NaN Infinity
  -Infinity\<close>; a repeated key keeps its first position and its last value; text after the
  value is an error. Every error is an exception of the library, \<open>None\<close> here. The
  interpreter's recursion limit is not modelled.
\<close>

definition is_ws :: "char \<Rightarrow> bool" where
  "is_ws c \<longleftrightarrow> c = CHR 0x20 \<or> c = CHR 0x09 \<or> c = CHR 0x0A \<or> c = CHR 0x0D"

definition skip_ws :: "string \<Rightarrow> string" where
  "skip_ws = dropWhile is_ws"

definition is_digit :: "char \<Rightarrow> bool" where
  "is_digit c \<longleftrightarrow> (48::nat) \<le> of_char c \<and> of_char c \<le> (57::nat)"

definition digits_val :: "string \<Rightarrow> nat" where
  "digits_val ds = foldl (\<lambda>a c. 10 * a + (of_char c - 48)) 0 ds"

definition hex_val :: "char \<Rightarrow> nat option" where
  "hex_val c =
     (let n = (of_char c :: nat) in
      if 48 \<le> n \<and> n \<le> 57 then Some (n - 48)
      else if 65 \<le> n \<and> n \<le> 70 then Some (n - 55)
      else if 97 \<le> n \<and> n \<le> 102 then Some (n - 87)
      else None)"

text \<open>Four hexadecimal digits, as after \<^verbatim>\<open>\\u\<close>.\<close>

definition hex4 :: "char \<Rightarrow> char \<Rightarrow> char \<Rightarrow> char \<Rightarrow> nat option" where
  "hex4 a b c d =
     (case (hex_val a, hex_val b, hex_val c, hex_val d) of
        (Some w, Some x, Some y, Some z) \<Rightarrow> Some (((w * 16 + x) * 16 + y) * 16 + z)
      | _ \<Rightarrow> None)"

text \<open>The table \<^verbatim>\<open>BACKSLASH\<close> of the one-letter escapes.\<close>

definition backslash :: "char \<Rightarrow> nat option" where
  "backslash e =
     (if e = CHR 0x22 then Some 0x22
      else if e = CHR 0x5C then Some 0x5C
      else if e = CHR ''/'' then Some 0x2F
      else if e = CHR ''b'' then Some 0x08
      else if e = CHR ''f'' then Some 0x0C
      else if e = CHR ''n'' then Some 0x0A
      else if e = CHR ''r'' then Some 0x0D
      else if e = CHR ''t'' then Some 0x09
      else None)"

definition cons_fst :: "'a \<Rightarrow> ('a list \<times> 'b) option \<Rightarrow> ('a list \<times> 'b) option" where
  "cons_fst x r = (case r of None \<Rightarrow> None | Some (xs, rest) \<Rightarrow> Some (x # xs, rest))"

text \<open>
  The second half of a surrogate pair: \<open>low_surrogate cs\<close> is the code of a
  \<^verbatim>\<open>\\uXXXX\<close> escape at the head of \<open>cs\<close> when it lies in DC00..DFFF.
\<close>

definition low_surrogate :: "string \<Rightarrow> nat option" where
  "low_surrogate cs =
     (case cs of
        b # u # h1 # h2 # h3 # h4 # rest \<Rightarrow>
          (if b = CHR 0x5C \<and> u = CHR ''u'' then
             (case hex4 h1 h2 h3 h4 of
                None \<Rightarrow> None
              | Some lo \<Rightarrow> if 0xDC00 \<le> lo \<and> lo \<le> 0xDFFF then Some lo else None)
           else None)
      | _ \<Rightarrow> None)"

text \<open>\<open>scanstring cs\<close> reads the body of a string, \<open>cs\<close> starting after the opening quote.\<close>

fun scanstring :: "string \<Rightarrow> (ustring \<times> string) option" where
  "scanstring [] = None"
| "scanstring (c # cs) =
     (if c = CHR 0x22 then Some ([], cs)
      else if c = CHR 0x5C then
        (case cs of
           [] \<Rightarrow> None
         | e # r \<Rightarrow>
             if e = CHR ''u'' then
               (case r of
                  h1 # h2 # h3 # h4 # r' \<Rightarrow>
                    (case hex4 h1 h2 h3 h4 of
                       None \<Rightarrow> None
                     | Some hi \<Rightarrow>
                         (case (if 0xD800 \<le> hi \<and> hi \<le> 0xDBFF then low_surrogate r' else None) of
                            Some lo \<Rightarrow>
                              cons_fst (0x10000 + (hi - 0xD800) * 0x400 + (lo - 0xDC00))
                                (scanstring (drop 6 r'))
                          | None \<Rightarrow> cons_fst hi (scanstring r')))
                | _ \<Rightarrow> None)
             else
               (case backslash e of
                  None \<Rightarrow> None
                | Some u \<Rightarrow> cons_fst u (scanstring r)))
      else if (of_char c :: nat) < 0x20 then None
      else cons_fst (of_char c) (scanstring cs))"

text \<open>
  \<open>match_number cs\<close> reads the longest number at the head of \<open>cs\<close>. A point without a
  digit after it, or an \<^verbatim>\<open>e\<close> without digits, is left in the rest.
\<close>

definition match_frac :: "string \<Rightarrow> (string \<times> string) option" where
  "match_frac cs =
     (case cs of
        p # d # r \<Rightarrow>
          if p = CHR ''.'' \<and> is_digit d
          then Some (takeWhile is_digit (d # r), dropWhile is_digit (d # r)) else None
      | _ \<Rightarrow> None)"

definition match_exp :: "string \<Rightarrow> (int \<times> string) option" where
  "match_exp cs =
     (case cs of
        [] \<Rightarrow> None
      | e # r \<Rightarrow>
          if e = CHR ''e'' \<or> e = CHR ''E'' then
            (let neg = (case r of s # _ \<Rightarrow> s = CHR ''-'' | [] \<Rightarrow> False);
                 signed = (case r of s # _ \<Rightarrow> s = CHR ''-'' \<or> s = CHR ''+'' | [] \<Rightarrow> False);
                 r' = (if signed then tl r else r);
                 ds = takeWhile is_digit r'
             in if ds = [] then None
                else Some ((if neg then - int (digits_val ds) else int (digits_val ds)),
                           dropWhile is_digit r'))
          else None)"

definition match_int :: "string \<Rightarrow> (string \<times> string) option" where
  "match_int cs =
     (case cs of
        [] \<Rightarrow> None
      | d # r \<Rightarrow>
          if d = CHR ''0'' then Some ([d], r)
          else if is_digit d then Some (takeWhile is_digit (d # r), dropWhile is_digit (d # r))
          else None)"

definition match_number :: "string \<Rightarrow> (json \<times> string) option" where
  "match_number cs =
     (let neg = (case cs of s # _ \<Rightarrow> s = CHR ''-'' | [] \<Rightarrow> False);
          sgn = (\<lambda>n. if neg then - int n else int n)
      in case match_int (if neg then tl cs else cs) of
           None \<Rightarrow> None
         | Some (ds, r1) \<Rightarrow>
             (let fr = match_frac r1;
                  fds = (case fr of None \<Rightarrow> [] | Some (f, _) \<Rightarrow> f);
                  r2 = (case fr of None \<Rightarrow> r1 | Some (_, r) \<Rightarrow> r);
                  ex = match_exp r2;
                  e = (case ex of None \<Rightarrow> 0 | Some (k, _) \<Rightarrow> k);
                  r3 = (case ex of None \<Rightarrow> r2 | Some (_, r) \<Rightarrow> r)
              in if fr = None \<and> ex = None then Some (JInt (sgn (digits_val ds)), r3)
                 else Some (JFloat (Dec (sgn (digits_val (ds @ fds))) (e - int (length fds))), r3)))"

definition strip_prefix :: "string \<Rightarrow> string \<Rightarrow> string option" where
  "strip_prefix p cs = (if take (length p) cs = p then Some (drop (length p) cs) else None)"

text \<open>The branches of the scanner that are neither string nor container, in its order.\<close>

definition literal :: "string \<Rightarrow> json \<Rightarrow> string \<Rightarrow> (json \<times> string) option" where
  "literal p v cs = (case strip_prefix p cs of None \<Rightarrow> None | Some r \<Rightarrow> Some (v, r))"

fun first_match :: "'a option list \<Rightarrow> 'a option" where
  "first_match [] = None"
| "first_match (None # xs) = first_match xs"
| "first_match (Some x # xs) = Some x"

definition scan_atom :: "string \<Rightarrow> (json \<times> string) option" where
  "scan_atom cs =
     first_match
       [literal ''null'' JNull cs,
        literal ''true'' (JBool True) cs,
        literal ''false'' (JBool False) cs,
        match_number cs,
        literal ''NaN'' (JFloat NaN) cs,
        literal ''Infinity'' (JFloat Infinity) cs,
        literal ''-Infinity'' (JFloat NegInfinity) cs]"

text \<open>
  The recursive descent. The first argument bounds the number of nested calls; a call
  reads at least one character every second level, so twice the length of the text is
  always enough (lemma \<open>json_loads_enough_fuel\<close> below). \<open>parse_array\<close> starts at the first element,
  \<open>parse_object\<close> at the quote of the first key and returns the list \<^verbatim>\<open>pairs\<close>.
\<close>

fun parse_value :: "nat \<Rightarrow> string \<Rightarrow> (json \<times> string) option"
  and parse_array :: "nat \<Rightarrow> string \<Rightarrow> (json list \<times> string) option"
  and parse_object :: "nat \<Rightarrow> string \<Rightarrow> ((ustring \<times> json) list \<times> string) option"
where
  "parse_value 0 cs = None"
| "parse_value (Suc n) cs =
     (case cs of
        [] \<Rightarrow> None
      | c # r \<Rightarrow>
          if c = CHR 0x22 then
            (case scanstring r of None \<Rightarrow> None | Some (s, r') \<Rightarrow> Some (JStr s, r'))
          else if c = CHR ''{'' then
            (case skip_ws r of
               [] \<Rightarrow> None
             | c' # r' \<Rightarrow>
                 if c' = CHR ''}'' then Some (JObj [], r')
                 else (case parse_object n (c' # r') of
                         None \<Rightarrow> None
                       | Some (pairs, r'') \<Rightarrow> Some (JObj (dict_of_pairs pairs), r'')))
          else if c = CHR ''['' then
            (case skip_ws r of
               [] \<Rightarrow> None
             | c' # r' \<Rightarrow>
                 if c' = CHR '']'' then Some (JArr [], r')
                 else (case parse_array n (c' # r') of
                         None \<Rightarrow> None
                       | Some (xs, r'') \<Rightarrow> Some (JArr xs, r'')))
          else scan_atom cs)"
| "parse_array 0 cs = None"
| "parse_array (Suc n) cs =
     (case parse_value n cs of
        None \<Rightarrow> None
      | Some (v, r) \<Rightarrow>
          (case skip_ws r of
             [] \<Rightarrow> None
           | c # r' \<Rightarrow>
               if c = CHR '']'' then Some ([v], r')
               else if c = CHR '','' then cons_fst v (parse_array n (skip_ws r'))
               else None))"
| "parse_object 0 cs = None"
| "parse_object (Suc n) cs =
     (case cs of
        [] \<Rightarrow> None
      | q # r \<Rightarrow>
          if q \<noteq> CHR 0x22 then None
          else
            (case scanstring r of
               None \<Rightarrow> None
             | Some (k, r1) \<Rightarrow>
                 (case skip_ws r1 of
                    [] \<Rightarrow> None
                  | c # r2 \<Rightarrow>
                      if c \<noteq> CHR '':'' then None
                      else
                        (case parse_value n (skip_ws r2) of
                           None \<Rightarrow> None
                         | Some (v, r3) \<Rightarrow>
                             (case skip_ws r3 of
                                [] \<Rightarrow> None
                              | c' # r4 \<Rightarrow>
                                  if c' = CHR ''}'' then Some ([(k, v)], r4)
                                  else if c' = CHR '','' then
                                    cons_fst (k, v) (parse_object n (skip_ws r4))
                                  else None)))))"

definition json_loads :: "string \<Rightarrow> json option" where
  "json_loads s =
     (case parse_value (2 * length s + 2) (skip_ws s) of
        None \<Rightarrow> None
      | Some (v, r) \<Rightarrow> if skip_ws r = [] then Some v else None)"

section \<open>The pattern search of the summarizer\<close>

text \<open>
  \<^verbatim>\<open>re.search(r'({[\s\S]*})', raw_response)\<close>: the class \<^verbatim>\<open>[\s\S]\<close> matches every
  character and the star is greedy, so the leftmost match starts at the first \<^verbatim>\<open>{\<close> and
  ends at the last \<^verbatim>\<open>}\<close> of the text; there is a match exactly when a \<^verbatim>\<open>}\<close> follows
  the first \<^verbatim>\<open>{\<close>. \<open>json_match\<close> is \<^verbatim>\<open>json_match.group(1)\<close>, \<open>None\<close> without a match.
\<close>

definition upto_last :: "char \<Rightarrow> string \<Rightarrow> string" where
  "upto_last c s = rev (dropWhile (\<lambda>x. x \<noteq> c) (rev s))"

definition json_match :: "string \<Rightarrow> string option" where
  "json_match raw_response =
     (case dropWhile (\<lambda>x. x \<noteq> CHR ''{'') raw_response of
        [] \<Rightarrow> None
      | b # rest \<Rightarrow>
          if CHR ''}'' \<in> set rest then Some (b # upto_last (CHR ''}'') rest) else None)"

section \<open>The environment: credentials, network, language model, console\<close>

text \<open>
  Everything the script does to the outside is recorded, in order, in a trace of events.
  A request names its endpoint and the parameters the script computes:
  \<^item> \<open>SearchReq term\<close>: \<^verbatim>\<open>POST /intelligent/search\<close> with the fixed buckets,
    \<^verbatim>\<open>maxresults\<close> 20, \<^verbatim>\<open>sort\<close> 4;
  \<^item> \<open>ResultReq id\<close>: \<^verbatim>\<open>GET /intelligent/search/result\<close>, limit 20, offset 0;
  \<^item> \<open>PreviewReq did\<close>: \<^verbatim>\<open>GET /file/preview\<close>;
  \<^item> \<open>ViewReq storageid bucket k\<close>: \<^verbatim>\<open>GET /file/view\<close> with \<^verbatim>\<open>f\<close> 0 and the key.
  \<open>LlmCreate snippet\<close> is the call \<^verbatim>\<open>LLM_CLIENT.chat.completions.create\<close> with the fixed
  system message and the fixed prompt followed by the snippet. Log lines and printed
  lines keep the values that the script formats into them; \<open>Banner\<close> is the line
  \<^verbatim>\<open>=== Smart Leak Analyzer by Augusto V. ===\<close> that the script prints before it calls
  \<^verbatim>\<open>main\<close>.
\<close>

datatype request =
    SearchReq string
  | ResultReq json
  | PreviewReq json
  | ViewReq json json "string option"

datatype level = Info | Success | Error | Warn

datatype message =
    MissingIntelxKey
  | MissingOpenaiKey
  | Searching string
  | SearchError int
  | IntelxException
  | NoResults
  | Found nat
  | AnalysingFile nat json json
  | ContentInaccessible
  | SendingToAI
  | AIError
  | NoStructuredAnalysis

datatype colour = Red | Yellow

datatype printed =
    Separator
  | PreviewRaw string
  | Risk colour json
  | Summary json
  | CredCount nat
  | Cred json json
  | Banner

datatype event =
    Http request
  | LlmCreate string
  | Log level message
  | Print printed

type_synonym trace = "event list"

text \<open>
  What a request gives back: an exception of the transport, or a response with its
  status, its body and what \<^verbatim>\<open>res.json()\<close> returns (\<open>None\<close> when that call raises).
\<close>

record response =
  status_code :: int
  res_text :: string
  json_body :: "json option"

datatype http_outcome = HttpException | HttpResponse response

text \<open>
  What the completion gives back: the string \<^verbatim>\<open>completion.choices[0].message.content\<close>,
  or an exception raised on the way to it (by the call, by an empty list of choices, or
  by the pattern search on a content that is not a string; all are caught by the same
  handler).
\<close>

datatype llm_outcome = LlmException | LlmContent string

text \<open>
  The world fixes the two credentials and answers every call. An answer may depend on
  everything that happened before: the oracle is given the trace, whose last event is the
  call being answered.
\<close>

record world =
  INTELX_API_KEY :: "string option"
  OPENAI_API_KEY :: "string option"
  requests_send :: "trace \<Rightarrow> http_outcome"
  llm_create :: "trace \<Rightarrow> llm_outcome"

section \<open>Control flow\<close>

text \<open>
  A block of statements ends in one of three ways: an exception leaves it, a
  \<^verbatim>\<open>return\<close> leaves it with a value, or control falls through its end. \<open>try_except\<close>
  runs the handler when the body raised; \<open>or_return\<close> is the \<^verbatim>\<open>return\<close> that follows
  a block at the end of a function.
\<close>

datatype 'a flow = Raises | Returns 'a | Falls

definition try_except ::
  "'a flow \<times> trace \<Rightarrow> (trace \<Rightarrow> 'a flow \<times> trace) \<Rightarrow> 'a flow \<times> trace" where
  "try_except body handler =
     (case body of (Raises, tr) \<Rightarrow> handler tr | (f, tr) \<Rightarrow> (f, tr))"

definition or_return :: "'a \<Rightarrow> 'a flow \<times> trace \<Rightarrow> 'a flow \<times> trace" where
  "or_return v block = (case block of (Falls, tr) \<Rightarrow> (Returns v, tr) | (f, tr) \<Rightarrow> (f, tr))"

section \<open>IntelXService\<close>

text \<open>The body of the \<^verbatim>\<open>try\<close> in \<^verbatim>\<open>search\<close>, and the method.\<close>

definition search_try :: "world \<Rightarrow> string \<Rightarrow> trace \<Rightarrow> json flow \<times> trace" where
  "search_try w term tr =
     (let tr1 = tr @ [Http (SearchReq term)] in
      case requests_send w tr1 of
        HttpException \<Rightarrow> (Raises, tr1)
      | HttpResponse res \<Rightarrow>
          if status_code res = 200 then
            (case json_body res of
               None \<Rightarrow> (Raises, tr1)
             | Some j \<Rightarrow>
                 (case py_get j (ustr ''id'') JNull of
                    None \<Rightarrow> (Raises, tr1)
                  | Some v \<Rightarrow> (Returns v, tr1)))
          else (Falls, tr1 @ [Log Error (SearchError (status_code res))]))"

definition search :: "world \<Rightarrow> string \<Rightarrow> trace \<Rightarrow> json flow \<times> trace" where
  "search w term tr =
     or_return JNull
       (try_except (search_try w term (tr @ [Log Info (Searching term)]))
          (\<lambda>tr'. (Falls, tr' @ [Log Error IntelxException])))"

definition get_results_try :: "world \<Rightarrow> json \<Rightarrow> trace \<Rightarrow> json flow \<times> trace" where
  "get_results_try w search_id tr =
     (let tr1 = tr @ [Http (ResultReq search_id)] in
      case requests_send w tr1 of
        HttpException \<Rightarrow> (Raises, tr1)
      | HttpResponse res \<Rightarrow>
          if status_code res = 200 then
            (case json_body res of
               None \<Rightarrow> (Raises, tr1)
             | Some j \<Rightarrow>
                 (case py_get j (ustr ''records'') (JArr []) of
                    None \<Rightarrow> (Raises, tr1)
                  | Some v \<Rightarrow> (Returns v, tr1)))
          else (Returns (JArr []), tr1))"

definition get_results :: "world \<Rightarrow> json \<Rightarrow> trace \<Rightarrow> json flow \<times> trace" where
  "get_results w search_id tr =
     try_except (get_results_try w search_id tr) (\<lambda>tr'. (Returns (JArr []), tr'))"

text \<open>
  \<^verbatim>\<open>get_preview\<close> takes a record of the listing, a dict. The result is the text of the
  response, or \<open>None\<close> for Python's \<^verbatim>\<open>None\<close>.
\<close>

definition preview_request :: "dict \<Rightarrow> event" where
  "preview_request item = Http (PreviewReq (dict_get item (ustr ''did'') JNull))"

definition view_request :: "world \<Rightarrow> dict \<Rightarrow> event" where
  "view_request w item =
     Http (ViewReq (dict_get item (ustr ''storageid'') JNull)
                   (dict_get item (ustr ''bucket'') JNull)
                   (INTELX_API_KEY w))"

definition get_preview_try :: "world \<Rightarrow> dict \<Rightarrow> trace \<Rightarrow> string option flow \<times> trace" where
  "get_preview_try w item tr =
     (let tr1 = tr @ [preview_request item] in
      case requests_send w tr1 of
        HttpException \<Rightarrow> (Raises, tr1)
      | HttpResponse res \<Rightarrow>
          if status_code res = 200 \<and> length (res_text res) > 10
          then (Returns (Some (res_text res)), tr1)
          else
            (let tr2 = tr1 @ [view_request w item] in
             case requests_send w tr2 of
               HttpException \<Rightarrow> (Raises, tr2)
             | HttpResponse res_view \<Rightarrow>
                 if status_code res_view = 200 then (Returns (Some (res_text res_view)), tr2)
                 else (Falls, tr2)))"

definition get_preview :: "world \<Rightarrow> dict \<Rightarrow> trace \<Rightarrow> string option flow \<times> trace" where
  "get_preview w item tr =
     or_return None (try_except (get_preview_try w item tr) (\<lambda>tr'. (Falls, tr')))"

section \<open>AIAnalyzer\<close>

text \<open>
  \<^verbatim>\<open>AIAnalyzer.__init__\<close> sets \<^verbatim>\<open>self.active\<close>; \<^verbatim>\<open>analyze_dump\<close> takes it as
  \<open>active\<close>. The result is the decoded value, \<open>JNull\<close> for \<^verbatim>\<open>None\<close>.
\<close>

definition analyze_dump_try :: "world \<Rightarrow> string \<Rightarrow> trace \<Rightarrow> json flow \<times> trace" where
  "analyze_dump_try w snippet tr =
     (let tr1 = tr @ [LlmCreate snippet] in
      case llm_create w tr1 of
        LlmException \<Rightarrow> (Raises, tr1)
      | LlmContent raw_response \<Rightarrow>
          (case json_match raw_response of
             None \<Rightarrow> (Falls, tr1)
           | Some g \<Rightarrow>
               (case json_loads g of
                  None \<Rightarrow> (Raises, tr1)
                | Some v \<Rightarrow> (Returns v, tr1))))"

definition analyze_dump :: "world \<Rightarrow> bool \<Rightarrow> string \<Rightarrow> trace \<Rightarrow> json flow \<times> trace" where
  "analyze_dump w active content tr =
     (if \<not> active then (Returns JNull, tr)
      else
        (let snippet = take 3000 content in
         or_return JNull
           (try_except (analyze_dump_try w snippet tr)
              (\<lambda>tr'. (Falls, tr' @ [Log Error AIError])))))"

section \<open>The driver\<close>

text \<open>The loop over \<^verbatim>\<open>creds\<close> that prints one line for each credential.\<close>

fun print_creds :: "json list \<Rightarrow> trace \<Rightarrow> unit flow \<times> trace" where
  "print_creds [] tr = (Falls, tr)"
| "print_creds (c # cs) tr =
     (case (py_get c (ustr ''email'') JNull,
            py_get c (ustr ''password'') JNull,
            py_get c (ustr ''hash_type'') JNull) of
        (Some email, Some password, Some hash_type) \<Rightarrow>
          print_creds cs (tr @ [Print (Cred email (py_or password hash_type))])
      | _ \<Rightarrow> (Raises, tr))"

text \<open>The branch \<^verbatim>\<open>if analysis: ... else: ...\<close> at the end of the loop body.\<close>

definition show_analysis :: "json \<Rightarrow> trace \<Rightarrow> unit flow \<times> trace" where
  "show_analysis analysis tr =
     (if py_truthy analysis then
        (case py_get analysis (ustr ''risk_level'') (JStr (ustr ''Unknown'')) of
           None \<Rightarrow> (Raises, tr)
         | Some risk \<Rightarrow>
             (let color_risk = (if risk = JStr (ustr ''High'') then Red else Yellow);
                  tr1 = tr @ [Print (Risk color_risk risk)]
              in case py_get analysis (ustr ''summary'') JNull of
                   None \<Rightarrow> (Raises, tr1)
                 | Some summary \<Rightarrow>
                     (let tr2 = tr1 @ [Print (Summary summary)] in
                      case py_get analysis (ustr ''credentials'') (JArr []) of
                        None \<Rightarrow> (Raises, tr2)
                      | Some creds \<Rightarrow>
                          if py_truthy creds then
                            (case py_len creds of
                               None \<Rightarrow> (Raises, tr2)
                             | Some n \<Rightarrow>
                                 (case py_iter creds of
                                    None \<Rightarrow> (Raises, tr2 @ [Print (CredCount n)])
                                  | Some cs \<Rightarrow> print_creds cs (tr2 @ [Print (CredCount n)])))
                          else (Falls, tr2))))
      else (Falls, tr @ [Log Warn NoStructuredAnalysis]))"

text \<open>
  The loop body from \<^verbatim>\<open>if not content\<close> on, given what \<^verbatim>\<open>get_preview\<close> returned;
  \<^verbatim>\<open>continue\<close> ends the body like falling through it.
\<close>

definition handle_content :: "world \<Rightarrow> bool \<Rightarrow> string option \<Rightarrow> trace \<Rightarrow> unit flow \<times> trace" where
  "handle_content w active content tr =
     (case content of
        None \<Rightarrow> (Falls, tr @ [Log Warn ContentInaccessible])
      | Some c \<Rightarrow>
          if \<not> str_truthy content then (Falls, tr @ [Log Warn ContentInaccessible])
          else
            (let tr1 = tr @ [Print (PreviewRaw (take 100 c)), Log Info SendingToAI] in
             case analyze_dump w active c tr1 of
               (Returns analysis, tr2) \<Rightarrow> show_analysis analysis tr2
             | (f, tr2) \<Rightarrow> (Raises, tr2)))"

text \<open>The whole loop body for the record \<open>item\<close> at index \<open>idx\<close>.\<close>

definition process_record :: "world \<Rightarrow> bool \<Rightarrow> nat \<Rightarrow> json \<Rightarrow> trace \<Rightarrow> unit flow \<times> trace" where
  "process_record w active idx item tr =
     (case py_get item (ustr ''name'') (JStr (ustr ''Unknown'')) of
        None \<Rightarrow> (Raises, tr)
      | Some name \<Rightarrow>
          (case py_get item (ustr ''date'') (JStr (ustr ''Unknown'')) of
             None \<Rightarrow> (Raises, tr)
           | Some date \<Rightarrow>
               (let tr1 = tr @ [Print Separator, Log Info (AnalysingFile (idx + 1) name date)] in
                case item of
                  JObj d \<Rightarrow>
                    (case get_preview w d tr1 of
                       (Returns content, tr2) \<Rightarrow> handle_content w active content tr2
                     | (f, tr2) \<Rightarrow> (Raises, tr2))
                | _ \<Rightarrow> (Raises, tr1))))"

text \<open>
  How a run of \<^verbatim>\<open>main\<close> ends: it returns, it leaves through \<^verbatim>\<open>sys.exit\<close>, or an
  exception that nothing catches ends it.
\<close>

datatype ending = Finished | Exited int | Uncaught

fun process_records :: "world \<Rightarrow> bool \<Rightarrow> nat \<Rightarrow> json list \<Rightarrow> trace \<Rightarrow> ending \<times> trace" where
  "process_records w active idx [] tr = (Finished, tr)"
| "process_records w active idx (item # items) tr =
     (case process_record w active idx item tr of
        (Raises, tr') \<Rightarrow> (Uncaught, tr')
      | (f, tr') \<Rightarrow> process_records w active (Suc idx) items tr')"

text \<open>
  \<^verbatim>\<open>main\<close>, after the command line gave \<open>target\<close>: \<^verbatim>\<open>IntelXService()\<close> checks its key
  and \<^verbatim>\<open>AIAnalyzer()\<close> its own, then search, listing and the loop over
  \<^verbatim>\<open>records[:5]\<close>.
  The statements at module level (reading the environment, building the client object of
  the OpenAI library) run before \<^verbatim>\<open>main\<close> and are not part of it; \<open>program\<close> below
  is the whole script.
\<close>

definition main :: "world \<Rightarrow> string \<Rightarrow> trace \<Rightarrow> ending \<times> trace" where
  "main w target tr =
     (if \<not> str_truthy (INTELX_API_KEY w) then (Exited 1, tr @ [Log Error MissingIntelxKey])
      else
        (let active = str_truthy (OPENAI_API_KEY w);
             tr0 = (if active then tr else tr @ [Log Warn MissingOpenaiKey])
         in case search w target tr0 of
              (Returns sid, tr1) \<Rightarrow>
                if \<not> py_truthy sid then (Finished, tr1 @ [Log Error NoResults])
                else
                  (case get_results w sid tr1 of
                     (Returns records, tr2) \<Rightarrow>
                       (case py_len records of
                          None \<Rightarrow> (Uncaught, tr2)
                        | Some n \<Rightarrow>
                            (let tr3 = tr2 @ [Log Success (Found n)] in
                             case py_slice records 5 of
                               None \<Rightarrow> (Uncaught, tr3)
                             | Some top5 \<Rightarrow>
                                 (case py_iter top5 of
                                    None \<Rightarrow> (Uncaught, tr3)
                                  | Some items \<Rightarrow> process_records w active 0 items tr3)))
                   | (f, tr2) \<Rightarrow> (Uncaught, tr2))
            | (f, tr1) \<Rightarrow> (Uncaught, tr1)))"

section \<open>The script\<close>



section \<open>The console\<close>

text \<open>
  \<^verbatim>\<open>log\<close> writes its line with \<^verbatim>\<open>print\<close>, which encodes the text for the stream
  behind \<^verbatim>\<open>sys.stdout\<close> and raises \<^verbatim>\<open>UnicodeEncodeError\<close> when the encoding has no
  place for one of its characters (an ASCII stream for a letter with an accent, any
  stream for a lone surrogate). The operations above take every line for written.
  The ones below are given the console: for a trace whose last event is a line, it tells
  whether \<^verbatim>\<open>print\<close> writes the line. A line that is not written is not in the trace.
\<close>

type_synonym console = "trace \<Rightarrow> bool"

definition log :: "console \<Rightarrow> level \<Rightarrow> message \<Rightarrow> trace \<Rightarrow> 'a flow \<times> trace" where
  "log con lv msg tr =
     (if con (tr @ [Log lv msg]) then (Falls, tr @ [Log lv msg]) else (Raises, tr))"

text \<open>
  \<^verbatim>\<open>search\<close>: the line of line 75 is written before the \<^verbatim>\<open>try\<close>, the line of line 88
  inside it, and the line of line 90 in the handler, where nothing catches an exception.
\<close>

definition search_try_on :: "console \<Rightarrow> world \<Rightarrow> string \<Rightarrow> trace \<Rightarrow> json flow \<times> trace" where
  "search_try_on con w term tr =
     (let tr1 = tr @ [Http (SearchReq term)] in
      case requests_send w tr1 of
        HttpException \<Rightarrow> (Raises, tr1)
      | HttpResponse res \<Rightarrow>
          if status_code res = 200 then
            (case json_body res of
               None \<Rightarrow> (Raises, tr1)
             | Some j \<Rightarrow>
                 (case py_get j (ustr ''id'') JNull of
                    None \<Rightarrow> (Raises, tr1)
                  | Some v \<Rightarrow> (Returns v, tr1)))
          else log con Error (SearchError (status_code res)) tr1)"

definition search_on :: "console \<Rightarrow> world \<Rightarrow> string \<Rightarrow> trace \<Rightarrow> json flow \<times> trace" where
  "search_on con w term tr =
     (case (log con Info (Searching term) tr :: unit flow \<times> trace) of
        (Raises, tr0) \<Rightarrow> (Raises, tr0)
      | (f, tr0) \<Rightarrow>
          or_return JNull
            (try_except (search_try_on con w term tr0) (log con Error IntelxException)))"

text \<open>
  \<^verbatim>\<open>analyze_dump\<close>: the only line is the one of the handler (line 169). \<open>content\<close>
  is the text of a response, a \<^verbatim>\<open>str\<close>, so the slice of line 137 cannot fail.
\<close>

definition analyze_dump_on :: "console \<Rightarrow> world \<Rightarrow> bool \<Rightarrow> string \<Rightarrow> trace \<Rightarrow> json flow \<times> trace" where
  "analyze_dump_on con w active content tr =
     (if \<not> active then (Returns JNull, tr)
      else
        (let snippet = take 3000 content in
         or_return JNull
           (try_except (analyze_dump_try w snippet tr) (log con Error AIError))))"

text \<open>
  \<^verbatim>\<open>get_results\<close> and \<^verbatim>\<open>get_preview\<close> write nothing. \<^verbatim>\<open>get_preview\<close> builds
  \<^verbatim>\<open>params\<close> with \<^verbatim>\<open>item.get\<close> before its \<^verbatim>\<open>try\<close> (line 107): \<open>get_preview_of\<close> is
  the method for an element of the listing, which can be any decoded value; only a dict
  has \<^verbatim>\<open>get\<close>.
\<close>

definition get_preview_of :: "world \<Rightarrow> json \<Rightarrow> trace \<Rightarrow> string option flow \<times> trace" where
  "get_preview_of w item tr =
     (case item of
        JObj d \<Rightarrow> get_preview w d tr
      | _ \<Rightarrow> (Raises, tr))"

text \<open>
  The requests of \<^verbatim>\<open>search\<close> and \<^verbatim>\<open>get_preview\<close> carry a \<^verbatim>\<open>timeout\<close>, and the
  client of the language model has one of its own: the wait for an answer ends, with a
  response or an exception. The request of \<^verbatim>\<open>get_results\<close> (line 98) carries none:
  as long as the server keeps the connection and does not answer, the call does not
  return. \<open>answered\<close> tells, for a trace whose last event is the listing request, whether
  the wait ends; the result \<open>None\<close> stands for a call that never returns.
\<close>

definition get_results_on ::
  "(trace \<Rightarrow> bool) \<Rightarrow> world \<Rightarrow> json \<Rightarrow> trace \<Rightarrow> (json flow \<times> trace) option" where
  "get_results_on answered w search_id tr =
     (if answered (tr @ [Http (ResultReq search_id)]) then Some (get_results w search_id tr)
      else None)"

section \<open>Notions used in the statements\<close>

text \<open>The events that an operation added to the trace it was given.\<close>

definition new_events :: "trace \<Rightarrow> 'a \<times> trace \<Rightarrow> trace" where
  "new_events tr result = drop (length tr) (snd result)"

text \<open>
  The answers that \<^verbatim>\<open>get_preview\<close> gets, or would get, from the preview endpoint and
  from the view endpoint, and the conditions under which it accepts them.
\<close>

definition preview_outcome :: "world \<Rightarrow> dict \<Rightarrow> trace \<Rightarrow> http_outcome" where
  "preview_outcome w item tr = requests_send w (tr @ [preview_request item])"

definition view_outcome :: "world \<Rightarrow> dict \<Rightarrow> trace \<Rightarrow> http_outcome" where
  "view_outcome w item tr = requests_send w (tr @ [preview_request item, view_request w item])"

fun preview_accepted :: "http_outcome \<Rightarrow> bool" where
  "preview_accepted HttpException = False"
| "preview_accepted (HttpResponse res) = (status_code res = 200 \<and> length (res_text res) > 10)"

fun view_accepted :: "http_outcome \<Rightarrow> bool" where
  "view_accepted HttpException = False"
| "view_accepted (HttpResponse res) = (status_code res = 200)"

fun is_view_request :: "event \<Rightarrow> bool" where
  "is_view_request (Http (ViewReq s b k)) = True"
| "is_view_request _ = False"

definition fallback_attempted :: "world \<Rightarrow> dict \<Rightarrow> trace \<Rightarrow> bool" where
  "fallback_attempted w item tr =
     list_ex is_view_request (new_events tr (get_preview w item tr))"





text \<open>
  The answers that \<^verbatim>\<open>search\<close>, \<^verbatim>\<open>get_results\<close> and \<^verbatim>\<open>analyze_dump\<close> get to their
  one call.
\<close>

definition search_outcome :: "world \<Rightarrow> string \<Rightarrow> trace \<Rightarrow> http_outcome" where
  "search_outcome w term tr =
     requests_send w (tr @ [Log Info (Searching term), Http (SearchReq term)])"

definition listing_outcome :: "world \<Rightarrow> json \<Rightarrow> trace \<Rightarrow> http_outcome" where
  "listing_outcome w search_id tr = requests_send w (tr @ [Http (ResultReq search_id)])"

definition completion :: "world \<Rightarrow> string \<Rightarrow> trace \<Rightarrow> llm_outcome" where
  "completion w content tr = llm_create w (tr @ [LlmCreate (take 3000 content)])"


text \<open>
  The line that opens the processing of a record, and the lines expected for the records
  \<open>ds\<close> processed in order from index \<open>idx\<close> on.
\<close>

fun is_file_header :: "event \<Rightarrow> bool" where
  "is_file_header (Log Info (AnalysingFile i n d)) = True"
| "is_file_header _ = False"

definition file_header :: "nat \<Rightarrow> dict \<Rightarrow> event" where
  "file_header idx d =
     Log Info (AnalysingFile (idx + 1)
       (dict_get d (ustr ''name'') (JStr (ustr ''Unknown'')))
       (dict_get d (ustr ''date'') (JStr (ustr ''Unknown''))))"

fun file_headers :: "nat \<Rightarrow> dict list \<Rightarrow> event list" where
  "file_headers idx [] = []"
| "file_headers idx (d # ds) = file_header idx d # file_headers (Suc idx) ds"

text \<open>An operation only added events to the trace, none of them the opening of a record.\<close>

definition quiet_step :: "trace \<Rightarrow> trace \<Rightarrow> bool" where
  "quiet_step tr tr' \<longleftrightarrow> (\<exists>evs. tr' = tr @ evs \<and> filter is_file_header evs = [])"


section \<open>Example worlds\<close>

text \<open>
  A world that answers a call by looking only at the call itself, the last event of the
  trace.
\<close>

definition mk_world ::
  "string option \<Rightarrow> string option \<Rightarrow> (request \<Rightarrow> http_outcome) \<Rightarrow> (string \<Rightarrow> llm_outcome) \<Rightarrow> world"
where
  "mk_world ikey okey http llm =
     \<lparr>INTELX_API_KEY = ikey, OPENAI_API_KEY = okey,
      requests_send = (\<lambda>tr. case rev tr of Http r # _ \<Rightarrow> http r | _ \<Rightarrow> HttpException),
      llm_create = (\<lambda>tr. case rev tr of LlmCreate s # _ \<Rightarrow> llm s | _ \<Rightarrow> LlmException)\<rparr>"

definition ok :: "string \<Rightarrow> http_outcome" where
  "ok body = HttpResponse \<lparr>status_code = 200, res_text = body, json_body = None\<rparr>"

definition ok_json :: "json \<Rightarrow> http_outcome" where
  "ok_json j = HttpResponse \<lparr>status_code = 200, res_text = [], json_body = Some j\<rparr>"

definition not_found :: http_outcome where
  "not_found = HttpResponse \<lparr>status_code = 404, res_text = ''Not Found: no preview'', json_body = None\<rparr>"

definition record1 :: dict where
  "record1 = [(ustr ''name'', JStr (ustr ''dump.txt'')), (ustr ''date'', JStr (ustr ''2024-01-01'')),
              (ustr ''did'', JStr (ustr ''d1'')), (ustr ''storageid'', JStr (ustr ''s1'')),
              (ustr ''bucket'', JStr (ustr ''leaks.public.general''))]"

definition record2 :: dict where
  "record2 = [(ustr ''name'', JStr (ustr ''combo.txt'')), (ustr ''date'', JStr (ustr ''2024-02-02'')),
              (ustr ''did'', JStr (ustr ''d2'')), (ustr ''storageid'', JStr (ustr ''s2'')),
              (ustr ''bucket'', JStr (ustr ''leaks.public.general''))]"

text \<open>The preview endpoint answers 404 with a body of 21 characters; the view endpoint works.\<close>

fun http_preview_404 :: "request \<Rightarrow> http_outcome" where
  "http_preview_404 (PreviewReq d) = not_found"
| "http_preview_404 (ViewReq s b k) = ok ''alice@example.com:hunter2''"
| "http_preview_404 r = HttpException"

definition world_preview_404 :: world where
  "world_preview_404 = mk_world (Some ''key'') (Some ''sk'') http_preview_404 (\<lambda>s. LlmException)"

text \<open>The preview request raises (a timeout, say); the view endpoint would work.\<close>

fun http_preview_raises :: "request \<Rightarrow> http_outcome" where
  "http_preview_raises (ViewReq s b k) = ok ''alice@example.com:hunter2''"
| "http_preview_raises r = HttpException"

definition world_preview_raises :: world where
  "world_preview_raises =
     mk_world (Some ''key'') (Some ''sk'') http_preview_raises (\<lambda>s. LlmException)"

text \<open>The preview is the 5 characters \<^verbatim>\<open>empty\<close>, the view endpoint answers 200 with no body.\<close>

fun http_empty_view :: "request \<Rightarrow> http_outcome" where
  "http_empty_view (PreviewReq d) = ok ''empty''"
| "http_empty_view (ViewReq s b k) = ok []"
| "http_empty_view r = HttpException"

definition world_empty_view :: world where
  "world_empty_view = mk_world (Some ''key'') (Some ''sk'') http_empty_view (\<lambda>s. LlmException)"

text \<open>Nothing answers: every request and every completion raises.\<close>

definition world_down :: world where
  "world_down = mk_world (Some ''key'') (Some ''sk'') (\<lambda>r. HttpException) (\<lambda>s. LlmException)"


text \<open>The completion wraps the object in prose without braces.\<close>

definition world_prose :: world where
  \<open>world_prose =
     mk_world (Some ''key'') (Some ''sk'') (\<lambda>r. HttpException)
       (\<lambda>s. LlmContent ''Here is the analysis: {"risk_level": "Low"} Hope it helps.'')\<close>

text \<open>The prose before the object uses braces itself.\<close>

definition world_prose_braces :: world where
  \<open>world_prose_braces =
     mk_world (Some ''key'') (Some ''sk'') (\<lambda>r. HttpException)
       (\<lambda>s. LlmContent ''Fields {in braces} follow. {"risk_level": "Low"}'')\<close>



text \<open>
  Two records are listed; the completion for the first one gives the credentials as
  strings instead of objects.
\<close>

fun http_two_records :: "request \<Rightarrow> http_outcome" where
  "http_two_records (SearchReq t) = ok_json (JObj [(ustr ''id'', JStr (ustr ''abc123''))])"
| "http_two_records (ResultReq i) =
     ok_json (JObj [(ustr ''records'', JArr [JObj record1, JObj record2])])"
| "http_two_records (PreviewReq d) = ok ''alice@example.com:hunter2''"
| "http_two_records (ViewReq s b k) = HttpException"

definition world_string_credentials :: world where
  \<open>world_string_credentials =
     mk_world (Some ''key'') (Some ''sk'') http_two_records
       (\<lambda>s. LlmContent ''{"credentials": ["alice@example.com:hunter2"]}'')\<close>



text \<open>
  A stream whose encoding is ASCII (a process started with \<^verbatim>\<open>PYTHONIOENCODING=ascii\<close>,
  say), for the four lines that \<^verbatim>\<open>search\<close> and \<^verbatim>\<open>analyze_dump\<close> write; it is not
  asked about any other. The line of line 75 is the ASCII text
  \<^verbatim>\<open>Buscando vazamentos para: \<close> and the term, the line of line 88 is ASCII. The lines
  of the two handlers (lines 90 and 169) hold letters with a cedilla, a tilde and an
  acute accent in their fixed part, which ASCII cannot encode.
\<close>

definition ascii_console :: console where
  "ascii_console tr =
     (case rev tr of
        Log lv (Searching term) # _ \<Rightarrow> list_all (\<lambda>c. of_char c < (128 :: nat)) term
      | Log lv (SearchError n) # _ \<Rightarrow> True
      | _ \<Rightarrow> False)"

section \<open>The fuel of the parser\<close>

text \<open>
  More fuel never changes what the parser returns, every successful call reads at least
  one character, and a call that reads \<open>c\<close> characters needs at most \<open>2 * c\<close> levels.
\<close>

lemma cons_fst_mono:
  assumes "\<And>y. r = Some y \<Longrightarrow> r' = Some y" and "cons_fst x r = Some z"
  shows "cons_fst x r' = Some z"
  using assms by (cases r) (auto simp add: cons_fst_def)

lemma parse_value_mono:
  assumes a: "\<And>cs x. parse_array n cs = Some x \<Longrightarrow> parse_array (Suc n) cs = Some x"
    and ob: "\<And>cs x. parse_object n cs = Some x \<Longrightarrow> parse_object (Suc n) cs = Some x"
    and p: "parse_value (Suc n) cs = Some x"
  shows "parse_value (Suc (Suc n)) cs = Some x"
proof (cases cs)
  case Nil
  with p show ?thesis by simp
next
  case (Cons c r)
  consider (str) "c = CHR 0x22"
    | (obj) "c \<noteq> CHR 0x22" "c = CHR ''{''"
    | (arr) "c \<noteq> CHR 0x22" "c \<noteq> CHR ''{''" "c = CHR ''[''"
    | (atom) "c \<noteq> CHR 0x22" "c \<noteq> CHR ''{''" "c \<noteq> CHR ''[''"
    by blast
  then show ?thesis
  proof cases
    case str
    with p Cons show ?thesis by simp
  next
    case obj
    show ?thesis
    proof (cases "skip_ws r")
      case Nil
      with p Cons obj show ?thesis by simp
    next
      case (Cons c' r')
      show ?thesis
      proof (cases "c' = CHR ''}''")
        case True
        with p \<open>cs = c # r\<close> obj Cons show ?thesis by simp
      next
        case False
        with p \<open>cs = c # r\<close> obj Cons obtain pairs r''
          where "parse_object n (c' # r') = Some (pairs, r'')"
            and "x = (JObj (dict_of_pairs pairs), r'')"
          by (auto split: option.splits)
        with ob [of "c' # r'" "(pairs, r'')"] \<open>cs = c # r\<close> obj Cons False show ?thesis
          by (simp del: parse_object.simps)
      qed
    qed
  next
    case arr
    show ?thesis
    proof (cases "skip_ws r")
      case Nil
      with p Cons arr show ?thesis by simp
    next
      case (Cons c' r')
      show ?thesis
      proof (cases "c' = CHR '']''")
        case True
        with p \<open>cs = c # r\<close> arr Cons show ?thesis by simp
      next
        case False
        with p \<open>cs = c # r\<close> arr Cons obtain xs r''
          where "parse_array n (c' # r') = Some (xs, r'')" and "x = (JArr xs, r'')"
          by (auto split: option.splits)
        with a [of "c' # r'" "(xs, r'')"] \<open>cs = c # r\<close> arr Cons False show ?thesis
          by (simp del: parse_array.simps)
      qed
    qed
  next
    case atom
    with p Cons show ?thesis by simp
  qed
qed

lemma parse_array_mono:
  assumes v: "\<And>cs x. parse_value n cs = Some x \<Longrightarrow> parse_value (Suc n) cs = Some x"
    and a: "\<And>cs x. parse_array n cs = Some x \<Longrightarrow> parse_array (Suc n) cs = Some x"
    and p: "parse_array (Suc n) cs = Some x"
  shows "parse_array (Suc (Suc n)) cs = Some x"
proof -
  from p obtain e r where e: "parse_value n cs = Some (e, r)"
    by (auto split: option.splits)
  then have e': "parse_value (Suc n) cs = Some (e, r)"
    by (rule v)
  show ?thesis
  proof (cases "skip_ws r")
    case Nil
    with p e show ?thesis by simp
  next
    case (Cons c r')
    consider (close) "c = CHR '']''" | (comma) "c \<noteq> CHR '']''" "c = CHR '',''"
      | (other) "c \<noteq> CHR '']''" "c \<noteq> CHR '',''"
      by blast
    then show ?thesis
    proof cases
      case close
      with p e Cons have "x = ([e], r')"
        by simp
      with e' Cons close show ?thesis
        by (subst parse_array.simps(2)) (simp del: parse_array.simps parse_value.simps)
    next
      case comma
      with p e Cons have "cons_fst e (parse_array n (skip_ws r')) = Some x"
        by simp
      then have "cons_fst e (parse_array (Suc n) (skip_ws r')) = Some x"
        by (rule cons_fst_mono [rotated]) (rule a)
      with e' Cons comma show ?thesis
        by (subst parse_array.simps(2)) (simp del: parse_array.simps parse_value.simps)
    next
      case other
      with p e Cons show ?thesis by simp
    qed
  qed
qed

lemma parse_object_mono:
  assumes v: "\<And>cs x. parse_value n cs = Some x \<Longrightarrow> parse_value (Suc n) cs = Some x"
    and ob: "\<And>cs x. parse_object n cs = Some x \<Longrightarrow> parse_object (Suc n) cs = Some x"
    and p: "parse_object (Suc n) cs = Some x"
  shows "parse_object (Suc (Suc n)) cs = Some x"
proof -
  from p obtain q r where cs: "cs = q # r" and q: "q = CHR 0x22"
    by (cases cs) (auto split: if_splits)
  from p cs q obtain k r1 where k: "scanstring r = Some (k, r1)"
    by (auto split: option.splits)
  from p cs q k obtain c r2 where r1: "skip_ws r1 = c # r2" and c: "c = CHR '':''"
    by (cases "skip_ws r1") (auto split: if_splits)
  from p cs q k r1 c obtain e r3 where e: "parse_value n (skip_ws r2) = Some (e, r3)"
    by (auto split: option.splits)
  then have e': "parse_value (Suc n) (skip_ws r2) = Some (e, r3)"
    by (rule v)
  show ?thesis
  proof (cases "skip_ws r3")
    case Nil
    with p cs q k r1 c e show ?thesis by simp
  next
    case (Cons c' r4)
    consider (close) "c' = CHR ''}''" | (comma) "c' \<noteq> CHR ''}''" "c' = CHR '',''"
      | (other) "c' \<noteq> CHR ''}''" "c' \<noteq> CHR '',''"
      by blast
    then show ?thesis
    proof cases
      case close
      with p cs q k r1 c e Cons have "x = ([(k, e)], r4)"
        by simp
      with cs q k r1 c e' Cons close show ?thesis
        by (subst parse_object.simps(2)) (simp del: parse_object.simps parse_value.simps)
    next
      case comma
      with p cs q k r1 c e Cons have "cons_fst (k, e) (parse_object n (skip_ws r4)) = Some x"
        by simp
      then have "cons_fst (k, e) (parse_object (Suc n) (skip_ws r4)) = Some x"
        by (rule cons_fst_mono [rotated]) (rule ob)
      with cs q k r1 c e' Cons comma show ?thesis
        by (subst parse_object.simps(2)) (simp del: parse_object.simps parse_value.simps)
    next
      case other
      with p cs q k r1 c e Cons show ?thesis by simp
    qed
  qed
qed

lemma parse_mono_step:
  "(\<forall>cs x. parse_value n cs = Some x \<longrightarrow> parse_value (Suc n) cs = Some x)
   \<and> (\<forall>cs x. parse_array n cs = Some x \<longrightarrow> parse_array (Suc n) cs = Some x)
   \<and> (\<forall>cs x. parse_object n cs = Some x \<longrightarrow> parse_object (Suc n) cs = Some x)"
proof (induction n)
  case 0
  then show ?case by simp
next
  case (Suc n)
  then show ?case
    using parse_value_mono [of n] parse_array_mono [of n] parse_object_mono [of n]
    by blast
qed

lemma parse_value_more_fuel:
  "parse_value n cs = Some x \<Longrightarrow> n \<le> m \<Longrightarrow> parse_value m cs = Some x"
proof (induction m)
  case 0
  then show ?case by simp
next
  case (Suc m)
  have "n = Suc m \<or> n \<le> m"
    using Suc.prems(2) by (simp only: le_Suc_eq) blast
  then have "n = Suc m \<or> parse_value m cs = Some x"
    using Suc.IH Suc.prems(1) by blast
  then show ?case
    using parse_mono_step [of m] Suc.prems(1) by blast
qed

lemma parse_array_more_fuel:
  "parse_array n cs = Some x \<Longrightarrow> n \<le> m \<Longrightarrow> parse_array m cs = Some x"
proof (induction m)
  case 0
  then show ?case by simp
next
  case (Suc m)
  have "n = Suc m \<or> n \<le> m"
    using Suc.prems(2) by (simp only: le_Suc_eq) blast
  then have "n = Suc m \<or> parse_array m cs = Some x"
    using Suc.IH Suc.prems(1) by blast
  then show ?case
    using parse_mono_step [of m] Suc.prems(1) by blast
qed

lemma parse_object_more_fuel:
  "parse_object n cs = Some x \<Longrightarrow> n \<le> m \<Longrightarrow> parse_object m cs = Some x"
proof (induction m)
  case 0
  then show ?case by simp
next
  case (Suc m)
  have "n = Suc m \<or> n \<le> m"
    using Suc.prems(2) by (simp only: le_Suc_eq) blast
  then have "n = Suc m \<or> parse_object m cs = Some x"
    using Suc.IH Suc.prems(1) by blast
  then show ?case
    using parse_mono_step [of m] Suc.prems(1) by blast
qed

lemma skip_ws_length: "length (skip_ws cs) \<le> length cs"
  by (simp add: skip_ws_def length_dropWhile_le)

lemma cons_fst_rest: "cons_fst x r = Some (ys, rest) \<Longrightarrow> \<exists>xs. r = Some (xs, rest)"
  by (cases r) (auto simp add: cons_fst_def)

lemma scanstring_shorter: "scanstring cs = Some (s, r) \<Longrightarrow> length r < length cs"
proof (induction cs arbitrary: s r rule: length_induct)
  case (1 cs)
  show ?case
  proof (cases cs)
    case Nil
    with 1 show ?thesis by simp
  next
    case (Cons c cs')
    consider (quote) "c = CHR 0x22" | (esc) "c \<noteq> CHR 0x22" "c = CHR 0x5C"
      | (plain) "c \<noteq> CHR 0x22" "c \<noteq> CHR 0x5C"
      by blast
    then show ?thesis
    proof cases
      case quote
      with 1(2) Cons show ?thesis by simp
    next
      case plain
      with 1(2) Cons obtain s' where "scanstring cs' = Some (s', r)"
        by (auto split: if_splits dest: cons_fst_rest)
      moreover have "length cs' < length cs"
        using Cons by simp
      ultimately have "length r < length cs'"
        using 1(1) by blast
      then show ?thesis
        using Cons by simp
    next
      case esc
      with 1(2) Cons obtain e r0 where cs': "cs' = e # r0"
        by (cases cs') auto
      show ?thesis
      proof (cases "e = CHR ''u''")
        case False
        with 1(2) Cons esc cs' obtain s' where "scanstring r0 = Some (s', r)"
          by (auto split: option.splits dest: cons_fst_rest)
        moreover have "length r0 < length cs"
          using Cons cs' by simp
        ultimately have "length r < length r0"
          using 1(1) by blast
        then show ?thesis
          using Cons cs' by simp
      next
        case True
        with 1(2) Cons esc cs' obtain h1 h2 h3 h4 r' where r0: "r0 = h1 # h2 # h3 # h4 # r'"
          by (auto split: list.splits)
        with 1(2) Cons esc cs' True
        have "(\<exists>s'. scanstring (drop 6 r') = Some (s', r)) \<or> (\<exists>s'. scanstring r' = Some (s', r))"
          by (auto split: option.splits dest: cons_fst_rest)
        then show ?thesis
        proof
          assume "\<exists>s'. scanstring (drop 6 r') = Some (s', r)"
          then obtain s' where "scanstring (drop 6 r') = Some (s', r)" by blast
          moreover have "length (drop 6 r') < length cs"
            using Cons cs' r0 by simp
          ultimately have "length r < length (drop 6 r')"
            using 1(1) by blast
          then show ?thesis
            using Cons cs' r0 by simp
        next
          assume "\<exists>s'. scanstring r' = Some (s', r)"
          then obtain s' where "scanstring r' = Some (s', r)" by blast
          moreover have "length r' < length cs"
            using Cons cs' r0 by simp
          ultimately have "length r < length r'"
            using 1(1) by blast
          then show ?thesis
            using Cons cs' r0 by simp
        qed
      qed
    qed
  qed
qed

lemma first_match_Some: "first_match xs = Some x \<Longrightarrow> Some x \<in> set xs"
  by (induction xs rule: first_match.induct) auto

lemma literal_shorter: "literal p v cs = Some (v', r) \<Longrightarrow> p \<noteq> [] \<Longrightarrow> length r < length cs"
proof -
  assume a: "literal p v cs = Some (v', r)" and p: "p \<noteq> []"
  then have t: "take (length p) cs = p" and r: "r = drop (length p) cs"
    by (auto simp add: literal_def strip_prefix_def split: option.splits if_splits)
  have "length (take (length p) cs) = length p"
    using t by simp
  then have "length p \<le> length cs"
    by simp
  moreover have "0 < length p"
    using p by simp
  moreover have "length r = length cs - length p"
    using r by simp
  ultimately show ?thesis
    by linarith
qed

lemma match_int_shorter: "match_int cs = Some (ds, r) \<Longrightarrow> length r < length cs"
  by (cases cs)
     (auto simp add: match_int_def le_imp_less_Suc length_dropWhile_le split: if_splits)

lemma match_frac_shorter: "match_frac cs = Some (f, r) \<Longrightarrow> length r \<le> length cs"
proof (cases cs)
  case Nil
  then show "match_frac cs = Some (f, r) \<Longrightarrow> length r \<le> length cs"
    by (simp add: match_frac_def)
next
  case (Cons p cs')
  assume a: "match_frac cs = Some (f, r)"
  with Cons obtain d r' where "cs' = d # r'" and "r = dropWhile is_digit (d # r')"
    by (cases cs') (auto simp add: match_frac_def split: if_splits)
  then show "length r \<le> length cs"
    using Cons length_dropWhile_le [of is_digit "d # r'"] by simp
qed

lemma match_exp_shorter: "match_exp cs = Some (k, r) \<Longrightarrow> length r \<le> length cs"
proof (cases cs)
  case Nil
  then show "match_exp cs = Some (k, r) \<Longrightarrow> length r \<le> length cs"
    by (simp add: match_exp_def)
next
  case (Cons e cs')
  assume a: "match_exp cs = Some (k, r)"
  with Cons have "r = dropWhile is_digit cs' \<or> r = dropWhile is_digit (tl cs')"
    by (auto simp add: match_exp_def Let_def split: if_splits)
  moreover have "length (dropWhile is_digit (tl cs')) \<le> length cs'"
    using length_dropWhile_le [of is_digit "tl cs'"] by simp
  ultimately show "length r \<le> length cs"
    using Cons length_dropWhile_le [of is_digit cs'] by auto
qed

lemma match_number_shorter: "match_number cs = Some (v, r) \<Longrightarrow> length r < length cs"
proof -
  assume a: "match_number cs = Some (v, r)"
  define cs0 where "cs0 = (if (case cs of s # _ \<Rightarrow> s = CHR ''-'' | [] \<Rightarrow> False) then tl cs else cs)"
  have l0: "length cs0 \<le> length cs"
    by (simp add: cs0_def)
  from a obtain ds r1 where i: "match_int cs0 = Some (ds, r1)"
    by (auto simp add: match_number_def cs0_def Let_def split: option.splits)
  have "length r \<le> length r1"
    using a i
    by (auto simp add: match_number_def cs0_def [symmetric] Let_def
        split: option.splits if_splits dest!: match_frac_shorter match_exp_shorter)
  then show ?thesis
    using match_int_shorter [OF i] l0 by simp
qed

lemma scan_atom_shorter: "scan_atom cs = Some (v, r) \<Longrightarrow> length r < length cs"
proof -
  assume "scan_atom cs = Some (v, r)"
  then have "Some (v, r) \<in> set
       [literal ''null'' JNull cs, literal ''true'' (JBool True) cs,
        literal ''false'' (JBool False) cs, match_number cs,
        literal ''NaN'' (JFloat NaN) cs, literal ''Infinity'' (JFloat Infinity) cs,
        literal ''-Infinity'' (JFloat NegInfinity) cs]"
    unfolding scan_atom_def by (rule first_match_Some)
  then consider p x where "literal p x cs = Some (v, r)" "p \<noteq> []"
    | "match_number cs = Some (v, r)"
    by auto
  then show ?thesis
    by cases (auto dest: literal_shorter match_number_shorter)
qed

lemma fuel_pred: "length r < length cs \<Longrightarrow>
   2 * (length cs - length r) - 1 = Suc (2 * (length cs - length r) - 2)"
  by simp

lemma bound_value:
  assumes a: "\<And>cs vs r. parse_array n cs = Some (vs, r) \<Longrightarrow>
               length r < length cs \<and> parse_array (2 * (length cs - length r)) cs = Some (vs, r)"
    and ob: "\<And>cs ps r. parse_object n cs = Some (ps, r) \<Longrightarrow>
               length r < length cs \<and> parse_object (2 * (length cs - length r)) cs = Some (ps, r)"
    and p: "parse_value (Suc n) cs = Some (v, r)"
  shows "length r < length cs \<and> parse_value (2 * (length cs - length r) - 1) cs = Some (v, r)"
proof (cases cs)
  case Nil
  with p show ?thesis by simp
next
  case (Cons c r0)
  have simple: ?thesis
    if l: "length r < length cs"
      and e: "\<And>m. parse_value (Suc m) cs = parse_value (Suc n) cs"
  proof -
    have "parse_value (2 * (length cs - length r) - 1) cs = parse_value (Suc n) cs"
      by (subst fuel_pred [OF l]) (rule e)
    with l p show ?thesis by simp
  qed
  consider (str) "c = CHR 0x22"
    | (obj) "c \<noteq> CHR 0x22" "c = CHR ''{''"
    | (arr) "c \<noteq> CHR 0x22" "c \<noteq> CHR ''{''" "c = CHR ''[''"
    | (atom) "c \<noteq> CHR 0x22" "c \<noteq> CHR ''{''" "c \<noteq> CHR ''[''"
    by blast
  then show ?thesis
  proof cases
    case str
    with p Cons obtain s where "scanstring r0 = Some (s, r)"
      by (auto split: option.splits)
    then have "length r < length cs"
      using scanstring_shorter Cons by fastforce
    then show ?thesis
      using Cons str by (intro simple) simp_all
  next
    case atom
    with p Cons have "scan_atom cs = Some (v, r)"
      by simp
    then have "length r < length cs"
      by (rule scan_atom_shorter)
    then show ?thesis
      using Cons atom by (intro simple) simp_all
  next
    case obj
    show ?thesis
    proof (cases "skip_ws r0")
      case Nil
      with p Cons obj show ?thesis by simp
    next
      case (Cons c' r')
      have l': "length (c' # r') < length cs"
        using skip_ws_length [of r0] Cons \<open>cs = c # r0\<close> by simp
      show ?thesis
      proof (cases "c' = CHR ''}''")
        case True
        with p \<open>cs = c # r0\<close> obj Cons have "r = r'"
          by simp
        then have "length r < length cs"
          using l' by simp
        then show ?thesis
          using \<open>cs = c # r0\<close> obj Cons True by (intro simple) simp_all
      next
        case False
        with p \<open>cs = c # r0\<close> obj Cons obtain pairs
          where po: "parse_object n (c' # r') = Some (pairs, r)"
            and v: "v = JObj (dict_of_pairs pairs)"
          by (auto split: option.splits)
        from ob [OF po] have lr: "length r < length (c' # r')"
          and b: "parse_object (2 * (length (c' # r') - length r)) (c' # r') = Some (pairs, r)"
          by blast+
        have l: "length r < length cs"
          using lr l' by simp
        have "2 * (length (c' # r') - length r) \<le> 2 * (length cs - length r) - 2"
          using lr l' by simp
        with b have "parse_object (2 * (length cs - length r) - 2) (c' # r') = Some (pairs, r)"
          by (rule parse_object_more_fuel)
        then have "parse_value (Suc (2 * (length cs - length r) - 2)) cs = Some (v, r)"
          using \<open>cs = c # r0\<close> obj Cons False v by (simp del: parse_object.simps)
        then show ?thesis
          using l by (simp only: fuel_pred [OF l])
      qed
    qed
  next
    case arr
    show ?thesis
    proof (cases "skip_ws r0")
      case Nil
      with p Cons arr show ?thesis by simp
    next
      case (Cons c' r')
      have l': "length (c' # r') < length cs"
        using skip_ws_length [of r0] Cons \<open>cs = c # r0\<close> by simp
      show ?thesis
      proof (cases "c' = CHR '']''")
        case True
        with p \<open>cs = c # r0\<close> arr Cons have "r = r'"
          by simp
        then have "length r < length cs"
          using l' by simp
        then show ?thesis
          using \<open>cs = c # r0\<close> arr Cons True by (intro simple) simp_all
      next
        case False
        with p \<open>cs = c # r0\<close> arr Cons obtain xs
          where pa: "parse_array n (c' # r') = Some (xs, r)" and v: "v = JArr xs"
          by (auto split: option.splits)
        from a [OF pa] have lr: "length r < length (c' # r')"
          and b: "parse_array (2 * (length (c' # r') - length r)) (c' # r') = Some (xs, r)"
          by blast+
        have l: "length r < length cs"
          using lr l' by simp
        have "2 * (length (c' # r') - length r) \<le> 2 * (length cs - length r) - 2"
          using lr l' by simp
        with b have "parse_array (2 * (length cs - length r) - 2) (c' # r') = Some (xs, r)"
          by (rule parse_array_more_fuel)
        then have "parse_value (Suc (2 * (length cs - length r) - 2)) cs = Some (v, r)"
          using \<open>cs = c # r0\<close> arr Cons False v by (simp del: parse_array.simps)
        then show ?thesis
          using l by (simp only: fuel_pred [OF l])
      qed
    qed
  qed
qed

lemma fuel_half: "length r < length cs \<Longrightarrow>
   2 * (length cs - length r) = Suc (2 * (length cs - length r) - 1)"
  by simp

lemma bound_array:
  assumes v: "\<And>cs x r. parse_value n cs = Some (x, r) \<Longrightarrow>
               length r < length cs \<and> parse_value (2 * (length cs - length r) - 1) cs = Some (x, r)"
    and a: "\<And>cs vs r. parse_array n cs = Some (vs, r) \<Longrightarrow>
               length r < length cs \<and> parse_array (2 * (length cs - length r)) cs = Some (vs, r)"
    and p: "parse_array (Suc n) cs = Some (vs, r)"
  shows "length r < length cs \<and> parse_array (2 * (length cs - length r)) cs = Some (vs, r)"
proof -
  from p obtain e r1 where e: "parse_value n cs = Some (e, r1)"
    by (auto split: option.splits)
  from v [OF e] have l1: "length r1 < length cs"
    and b1: "parse_value (2 * (length cs - length r1) - 1) cs = Some (e, r1)"
    by blast+
  define m where "m = 2 * (length cs - length r) - 1"
  show ?thesis
  proof (cases "skip_ws r1")
    case Nil
    with p e show ?thesis by simp
  next
    case (Cons c r')
    have l': "length r' < length r1"
      using skip_ws_length [of r1] Cons by simp
    consider (close) "c = CHR '']''" | (comma) "c \<noteq> CHR '']''" "c = CHR '',''"
      | (other) "c \<noteq> CHR '']''" "c \<noteq> CHR '',''"
      by blast
    then show ?thesis
    proof cases
      case other
      with p e Cons show ?thesis by simp
    next
      case close
      with p e Cons have x: "vs = [e]" "r = r'"
        by simp_all
      have l: "length r < length cs"
        using x l' l1 by simp
      have "2 * (length cs - length r1) - 1 \<le> m"
        using x l' l1 by (simp add: m_def)
      with b1 have "parse_value m cs = Some (e, r1)"
        by (rule parse_value_more_fuel)
      then have "parse_array (Suc m) cs = Some (vs, r)"
        using Cons close x
        by (subst parse_array.simps(2)) (simp del: parse_array.simps parse_value.simps)
      moreover have "2 * (length cs - length r) = Suc m"
        using l by (simp add: m_def)
      ultimately show ?thesis
        using l by simp
    next
      case comma
      with p e Cons obtain xs where pa: "parse_array n (skip_ws r') = Some (xs, r)"
        and x: "vs = e # xs"
        by (auto simp add: cons_fst_def split: option.splits)
      from a [OF pa] have lr: "length r < length (skip_ws r')"
        and b2: "parse_array (2 * (length (skip_ws r') - length r)) (skip_ws r') = Some (xs, r)"
        by blast+
      have l'': "length (skip_ws r') \<le> length r'"
        by (rule skip_ws_length)
      have l: "length r < length cs"
        using lr l'' l' l1 by simp
      have "2 * (length cs - length r1) - 1 \<le> m"
        using lr l'' l' l1 by (simp add: m_def)
      with b1 have f1: "parse_value m cs = Some (e, r1)"
        by (rule parse_value_more_fuel)
      have "2 * (length (skip_ws r') - length r) \<le> m"
        using lr l'' l' l1 by (simp add: m_def)
      with b2 have f2: "parse_array m (skip_ws r') = Some (xs, r)"
        by (rule parse_array_more_fuel)
      have "parse_array (Suc m) cs = Some (vs, r)"
        using Cons comma x f1 f2
        by (subst parse_array.simps(2))
           (simp del: parse_array.simps parse_value.simps add: cons_fst_def)
      moreover have "2 * (length cs - length r) = Suc m"
        using l by (simp add: m_def)
      ultimately show ?thesis
        using l by simp
    qed
  qed
qed

lemma bound_object:
  assumes v: "\<And>cs x r. parse_value n cs = Some (x, r) \<Longrightarrow>
               length r < length cs \<and> parse_value (2 * (length cs - length r) - 1) cs = Some (x, r)"
    and ob: "\<And>cs ps r. parse_object n cs = Some (ps, r) \<Longrightarrow>
               length r < length cs \<and> parse_object (2 * (length cs - length r)) cs = Some (ps, r)"
    and p: "parse_object (Suc n) cs = Some (ps, r)"
  shows "length r < length cs \<and> parse_object (2 * (length cs - length r)) cs = Some (ps, r)"
proof -
  from p obtain q r0 where cs: "cs = q # r0" and q: "q = CHR 0x22"
    by (cases cs) (auto split: if_splits)
  from p cs q obtain k r1 where k: "scanstring r0 = Some (k, r1)"
    by (auto split: option.splits)
  from p cs q k obtain c r2 where r1: "skip_ws r1 = c # r2" and c: "c = CHR '':''"
    by (cases "skip_ws r1") (auto split: if_splits)
  from p cs q k r1 c obtain e r3 where e: "parse_value n (skip_ws r2) = Some (e, r3)"
    by (auto split: option.splits)
  from v [OF e] have l3: "length r3 < length (skip_ws r2)"
    and b1: "parse_value (2 * (length (skip_ws r2) - length r3) - 1) (skip_ws r2) = Some (e, r3)"
    by blast+
  have l2: "length (skip_ws r2) < length cs"
    using skip_ws_length [of r2] skip_ws_length [of r1] r1 scanstring_shorter [OF k] cs
    by simp
  define m where "m = 2 * (length cs - length r) - 1"
  show ?thesis
  proof (cases "skip_ws r3")
    case Nil
    with p cs q k r1 c e show ?thesis by simp
  next
    case (Cons c' r4)
    have l4: "length r4 < length r3"
      using skip_ws_length [of r3] Cons by simp
    consider (close) "c' = CHR ''}''" | (comma) "c' \<noteq> CHR ''}''" "c' = CHR '',''"
      | (other) "c' \<noteq> CHR ''}''" "c' \<noteq> CHR '',''"
      by blast
    then show ?thesis
    proof cases
      case other
      with p cs q k r1 c e Cons show ?thesis by simp
    next
      case close
      with p cs q k r1 c e Cons have x: "ps = [(k, e)]" "r = r4"
        by simp_all
      have l: "length r < length cs"
        using x l4 l3 l2 by simp
      have "2 * (length (skip_ws r2) - length r3) - 1 \<le> m"
        using x l4 l3 l2 by (simp add: m_def)
      with b1 have "parse_value m (skip_ws r2) = Some (e, r3)"
        by (rule parse_value_more_fuel)
      then have "parse_object (Suc m) cs = Some (ps, r)"
        using cs q k r1 c Cons close x
        by (subst parse_object.simps(2)) (simp del: parse_object.simps parse_value.simps)
      moreover have "2 * (length cs - length r) = Suc m"
        using l by (simp add: m_def)
      ultimately show ?thesis
        using l by simp
    next
      case comma
      with p cs q k r1 c e Cons obtain xs where po: "parse_object n (skip_ws r4) = Some (xs, r)"
        and x: "ps = (k, e) # xs"
        by (auto simp add: cons_fst_def split: option.splits)
      from ob [OF po] have lr: "length r < length (skip_ws r4)"
        and b2: "parse_object (2 * (length (skip_ws r4) - length r)) (skip_ws r4) = Some (xs, r)"
        by blast+
      have l5: "length (skip_ws r4) \<le> length r4"
        by (rule skip_ws_length)
      have l: "length r < length cs"
        using lr l5 l4 l3 l2 by simp
      have "2 * (length (skip_ws r2) - length r3) - 1 \<le> m"
        using lr l5 l4 l3 l2 by (simp add: m_def)
      with b1 have f1: "parse_value m (skip_ws r2) = Some (e, r3)"
        by (rule parse_value_more_fuel)
      have "2 * (length (skip_ws r4) - length r) \<le> m"
        using lr l5 l4 l3 l2 by (simp add: m_def)
      with b2 have f2: "parse_object m (skip_ws r4) = Some (xs, r)"
        by (rule parse_object_more_fuel)
      have "parse_object (Suc m) cs = Some (ps, r)"
        using cs q k r1 c Cons comma x f1 f2
        by (subst parse_object.simps(2))
           (simp del: parse_object.simps parse_value.simps add: cons_fst_def)
      moreover have "2 * (length cs - length r) = Suc m"
        using l by (simp add: m_def)
      ultimately show ?thesis
        using l by simp
    qed
  qed
qed

lemma parse_bound_0:
  "(\<forall>cs x r. parse_value 0 cs = Some (x, r) \<longrightarrow>
      length r < length cs \<and> parse_value (2 * (length cs - length r) - 1) cs = Some (x, r))
   \<and> (\<forall>cs vs r. parse_array 0 cs = Some (vs, r) \<longrightarrow>
      length r < length cs \<and> parse_array (2 * (length cs - length r)) cs = Some (vs, r))
   \<and> (\<forall>cs ps r. parse_object 0 cs = Some (ps, r) \<longrightarrow>
      length r < length cs \<and> parse_object (2 * (length cs - length r)) cs = Some (ps, r))"
  by (simp only: parse_value.simps(1) parse_array.simps(1) parse_object.simps(1)) simp

lemma parse_bound:
  "(\<forall>cs x r. parse_value n cs = Some (x, r) \<longrightarrow>
      length r < length cs \<and> parse_value (2 * (length cs - length r) - 1) cs = Some (x, r))
   \<and> (\<forall>cs vs r. parse_array n cs = Some (vs, r) \<longrightarrow>
      length r < length cs \<and> parse_array (2 * (length cs - length r)) cs = Some (vs, r))
   \<and> (\<forall>cs ps r. parse_object n cs = Some (ps, r) \<longrightarrow>
      length r < length cs \<and> parse_object (2 * (length cs - length r)) cs = Some (ps, r))"
proof (induction n)
  case 0
  show ?case
    by (rule parse_bound_0)
next
  case (Suc n)
  from Suc have V: "\<And>cs x r. parse_value n cs = Some (x, r) \<Longrightarrow>
      length r < length cs \<and> parse_value (2 * (length cs - length r) - 1) cs = Some (x, r)"
    by blast
  from Suc have A: "\<And>cs vs r. parse_array n cs = Some (vs, r) \<Longrightarrow>
      length r < length cs \<and> parse_array (2 * (length cs - length r)) cs = Some (vs, r)"
    by blast
  from Suc have O: "\<And>cs ps r. parse_object n cs = Some (ps, r) \<Longrightarrow>
      length r < length cs \<and> parse_object (2 * (length cs - length r)) cs = Some (ps, r)"
    by blast
  show ?case
  proof (intro conjI allI impI)
    fix cs x r
    assume "parse_value (Suc n) cs = Some (x, r)"
    from bound_value [OF A O this]
    show "length r < length cs" and "parse_value (2 * (length cs - length r) - 1) cs = Some (x, r)"
      by blast+
  next
    fix cs vs r
    assume "parse_array (Suc n) cs = Some (vs, r)"
    from bound_array [OF V A this]
    show "length r < length cs" and "parse_array (2 * (length cs - length r)) cs = Some (vs, r)"
      by blast+
  next
    fix cs ps r
    assume "parse_object (Suc n) cs = Some (ps, r)"
    from bound_object [OF V O this]
    show "length r < length cs" and "parse_object (2 * (length cs - length r)) cs = Some (ps, r)"
      by blast+
  qed
qed

text \<open>
  The fuel that \<open>json_loads\<close> gives is enough: whatever some amount of fuel parses, it
  parses too.
\<close>

lemma json_loads_enough_fuel:
  assumes "parse_value n (skip_ws s) = Some (v, r)"
  shows "json_loads s = (if skip_ws r = [] then Some v else None)"
proof -
  from parse_bound [of n] assms
  have l: "length r < length (skip_ws s)"
    and b: "parse_value (2 * (length (skip_ws s) - length r) - 1) (skip_ws s) = Some (v, r)"
    by blast+
  have "2 * (length (skip_ws s) - length r) - 1 \<le> 2 * length s + 2"
    using skip_ws_length [of s] by simp
  with b have "parse_value (2 * length s + 2) (skip_ws s) = Some (v, r)"
    by (rule parse_value_more_fuel)
  then show ?thesis
    by (simp add: json_loads_def del: parse_value.simps)
qed
section \<open>The preview fetcher\<close>

text \<open>
  \<^verbatim>\<open>get_preview\<close> has three ways through: the preview request raises, the preview is
  accepted, or the view endpoint is asked.
\<close>

lemma get_preview_exception:
  "preview_outcome w item tr = HttpException \<Longrightarrow>
   get_preview w item tr = (Returns None, tr @ [preview_request item])"
  by (simp add: get_preview_def get_preview_try_def preview_outcome_def try_except_def
      or_return_def)

lemma get_preview_accepted:
  "preview_outcome w item tr = HttpResponse res \<Longrightarrow>
   status_code res = 200 \<and> length (res_text res) > 10 \<Longrightarrow>
   get_preview w item tr = (Returns (Some (res_text res)), tr @ [preview_request item])"
  by (simp add: get_preview_def get_preview_try_def preview_outcome_def try_except_def
      or_return_def)

lemma get_preview_fallback:
  "preview_outcome w item tr = HttpResponse res \<Longrightarrow>
   \<not> (status_code res = 200 \<and> length (res_text res) > 10) \<Longrightarrow>
   get_preview w item tr =
     (case view_outcome w item tr of
        HttpException \<Rightarrow> Returns None
      | HttpResponse rv \<Rightarrow> if status_code rv = 200 then Returns (Some (res_text rv)) else Returns None,
      tr @ [preview_request item, view_request w item])"
  by (auto simp add: get_preview_def get_preview_try_def preview_outcome_def view_outcome_def
      try_except_def or_return_def split: http_outcome.splits)

lemma fallback_iff:
  "fallback_attempted w item tr \<longleftrightarrow>
     (\<exists>res. preview_outcome w item tr = HttpResponse res \<and>
        \<not> (status_code res = 200 \<and> length (res_text res) > 10))"
proof (cases "preview_outcome w item tr")
  case HttpException
  then show ?thesis
    by (simp add: fallback_attempted_def new_events_def get_preview_exception preview_request_def)
next
  case (HttpResponse res)
  show ?thesis
  proof (cases "status_code res = 200 \<and> length (res_text res) > 10")
    case True
    with HttpResponse show ?thesis
      by (simp add: fallback_attempted_def new_events_def get_preview_accepted preview_request_def)
  next
    case False
    with HttpResponse show ?thesis
      by (simp add: fallback_attempted_def new_events_def get_preview_fallback preview_request_def
          view_request_def)
  qed
qed

lemmas world_simps = mk_world_def ok_def ok_json_def not_found_def preview_outcome_def
  view_outcome_def preview_request_def view_request_def

text \<open>
  Claim C2, as stated: the fetcher falls back if the preview body has at most 10
  characters and does not fall back if it has more. It fails for a preview response
  whose status is not 200: a 404 with a body of 21 characters is followed by the view
  request.
\<close>

theorem fallback_on_long_preview_counterexample:
  "preview_outcome world_preview_404 record1 []
     = HttpResponse \<lparr>status_code = 404, res_text = ''Not Found: no preview'', json_body = None\<rparr>
   \<and> length ''Not Found: no preview'' = 21
   \<and> fallback_attempted world_preview_404 record1 []"
  by (simp add: fallback_iff world_preview_404_def world_simps)

text \<open>
  Claim C2, amended: for every response of the preview endpoint, the view endpoint is
  asked exactly when the response fails the acceptance condition (status 200 and more
  than 10 characters). So a body of at most 10 characters always leads to the fallback,
  and a longer body avoids it exactly when the status is 200.
\<close>

theorem fallback_iff_preview_rejected:
  assumes "preview_outcome w item tr = HttpResponse res"
  shows "(fallback_attempted w item tr \<longleftrightarrow>
            \<not> (status_code res = 200 \<and> length (res_text res) > 10))
         \<and> (length (res_text res) \<le> 10 \<longrightarrow> fallback_attempted w item tr)
         \<and> (length (res_text res) > 10 \<longrightarrow>
               (fallback_attempted w item tr \<longleftrightarrow> status_code res \<noteq> 200))"
  using assms by (auto simp add: fallback_iff)

theorem fallback_iff_preview_rejected_witness:
  "preview_outcome world_empty_view record1 [] = ok ''empty''
   \<and> fallback_attempted world_empty_view record1 []"
  using fallback_iff_preview_rejected [of world_empty_view record1 "[]"
      "\<lparr>status_code = 200, res_text = ''empty'', json_body = None\<rparr>"]
  by (simp add: world_empty_view_def world_simps)

text \<open>
  Claim C3: when the preview attempt fails, also by a transport exception, the fetcher
  falls back to the view endpoint before giving up. The comment in the source says the
  same (\<^verbatim>\<open>Fallback para View API se Preview falhar\<close>), but both requests sit in one
  \<^verbatim>\<open>try\<close> block: an exception of the preview request goes straight to the handler. In
  the world below the view endpoint would deliver the text, yet it is never asked and the
  result is \<^verbatim>\<open>None\<close>.
\<close>

theorem preview_exception_skips_fallback:
  "preview_outcome world_preview_raises record1 [] = HttpException
   \<and> view_outcome world_preview_raises record1 [] = ok ''alice@example.com:hunter2''
   \<and> get_preview world_preview_raises record1 [] = (Returns None, [preview_request record1])
   \<and> \<not> fallback_attempted world_preview_raises record1 []"
  by (simp add: fallback_iff get_preview_exception world_preview_raises_def world_simps)

text \<open>
  Claim C8: on fallback (the view endpoint is asked), the fetcher accepts any 200 response
  of the view endpoint, also one with an empty body, and returns \<^verbatim>\<open>None\<close> only if both
  attempts failed: the preview was not accepted, and the view request raised or was
  answered with another status.
\<close>

theorem view_body_accepted_on_fallback:
  assumes "fallback_attempted w item tr"
  shows "\<not> preview_accepted (preview_outcome w item tr)
         \<and> (\<forall>rv. view_outcome w item tr = HttpResponse rv \<and> status_code rv = 200 \<longrightarrow>
               fst (get_preview w item tr) = Returns (Some (res_text rv)))
         \<and> (fst (get_preview w item tr) = Returns None \<longleftrightarrow>
               \<not> view_accepted (view_outcome w item tr))"
proof -
  from assms obtain res where res: "preview_outcome w item tr = HttpResponse res"
    and rej: "\<not> (status_code res = 200 \<and> length (res_text res) > 10)"
    by (auto simp add: fallback_iff)
  show ?thesis
    using res rej get_preview_fallback [OF res rej]
    by (cases "view_outcome w item tr") auto
qed

theorem view_body_accepted_on_fallback_witness:
  "fallback_attempted world_empty_view record1 []
   \<and> view_outcome world_empty_view record1 [] = ok []
   \<and> fst (get_preview world_empty_view record1 []) = Returns (Some [])"
proof -
  have fb: "fallback_attempted world_empty_view record1 []"
    by (simp add: fallback_iff world_empty_view_def world_simps)
  have vo: "view_outcome world_empty_view record1 [] = ok []"
    by (simp add: world_empty_view_def world_simps)
  from view_body_accepted_on_fallback [OF fb] vo show ?thesis
    using fb by (simp add: ok_def)
qed

section \<open>The driver and empty content\<close>



section \<open>A failed search\<close>




section \<open>The summarizer\<close>

text \<open>
  What the pattern search finds when the object stands in prose without braces, and what
  it hands to the parser in general: a text that starts with a brace, which can only
  decode to a dict.
\<close>

lemma dropWhile_upto:
  assumes "c \<notin> set xs"
  shows "dropWhile (\<lambda>x. x \<noteq> c) (xs @ c # ys) = c # ys"
proof -
  have "dropWhile (\<lambda>x. x \<noteq> c) xs = []"
    using assms by auto
  then show ?thesis
    by (simp add: dropWhile_append3)
qed

lemma json_match_wrapped:
  assumes "CHR ''{'' \<notin> set pre" and "CHR ''}'' \<notin> set post"
  shows "json_match (pre @ CHR ''{'' # mid @ CHR ''}'' # post) = Some (CHR ''{'' # mid @ [CHR ''}''])"
proof -
  have 1: "dropWhile (\<lambda>x. x \<noteq> CHR ''{'') (pre @ CHR ''{'' # mid @ CHR ''}'' # post)
           = CHR ''{'' # mid @ CHR ''}'' # post"
    using assms(1) by (rule dropWhile_upto)
  have "dropWhile (\<lambda>x. x \<noteq> CHR ''}'') (rev post @ CHR ''}'' # rev mid) = CHR ''}'' # rev mid"
    using assms(2) by (simp add: dropWhile_upto)
  then have 2: "upto_last (CHR ''}'') (mid @ CHR ''}'' # post) = mid @ [CHR ''}'']"
    by (simp add: upto_last_def)
  show ?thesis
    by (simp add: json_match_def 1 2)
qed


lemma analyze_dump_cases:
  "analyze_dump w True content tr =
     (case llm_create w (tr @ [LlmCreate (take 3000 content)]) of
        LlmException \<Rightarrow>
          (Returns JNull, tr @ [LlmCreate (take 3000 content), Log Error AIError])
      | LlmContent raw \<Rightarrow>
          (case json_match raw of
             None \<Rightarrow> (Returns JNull, tr @ [LlmCreate (take 3000 content)])
           | Some g \<Rightarrow>
               (case json_loads g of
                  None \<Rightarrow> (Returns JNull, tr @ [LlmCreate (take 3000 content), Log Error AIError])
                | Some v \<Rightarrow> (Returns v, tr @ [LlmCreate (take 3000 content)]))))"
  by (simp add: analyze_dump_def analyze_dump_try_def try_except_def or_return_def
      split: llm_outcome.splits option.splits)

text \<open>The texts of the example worlds, evaluated.\<close>

lemma loads_low:
  \<open>json_loads ''{"risk_level": "Low"}'' = Some (JObj [(ustr ''risk_level'', JStr (ustr ''Low''))])\<close>
  by code_simp

lemma match_prose:
  \<open>json_match ''Here is the analysis: {"risk_level": "Low"} Hope it helps.''
     = Some ''{"risk_level": "Low"}''\<close>
  by code_simp

lemma match_prose_braces:
  \<open>json_match ''Fields {in braces} follow. {"risk_level": "Low"}''
     = Some ''{in braces} follow. {"risk_level": "Low"}''\<close>
  by code_simp

lemma loads_prose_braces:
  \<open>json_loads ''{in braces} follow. {"risk_level": "Low"}'' = None\<close>
  by code_simp












text \<open>
  Claim C1, as stated: a well-formed JSON object anywhere in the response, in arbitrary
  prose, is extracted and returned unchanged. It fails when the prose has braces of its
  own: the greedy match runs from the first \<^verbatim>\<open>{\<close> of the response to its last
  \<^verbatim>\<open>}\<close>, the parser rejects that text, and the summarizer returns \<^verbatim>\<open>None\<close>.
\<close>

theorem object_after_braced_prose_counterexample:
  \<open>llm_create world_prose_braces [LlmCreate (take 3000 ''dump'')]
     = LlmContent (''Fields {in braces} follow. '' @ ''{"risk_level": "Low"}'')
   \<and> json_loads ''{"risk_level": "Low"}'' = Some (JObj [(ustr ''risk_level'', JStr (ustr ''Low''))])
   \<and> analyze_dump world_prose_braces True ''dump'' []
       = (Returns JNull, [LlmCreate ''dump'', Log Error AIError])\<close>
proof -
  have l: \<open>llm_create world_prose_braces ([] @ [LlmCreate (take 3000 ''dump'')])
     = LlmContent ''Fields {in braces} follow. {"risk_level": "Low"}''\<close>
    by (simp add: world_prose_braces_def mk_world_def)
  show ?thesis
    using l by (simp add: analyze_dump_cases [of _ _ "[]", simplified] match_prose_braces
        loads_prose_braces loads_low)
qed

text \<open>
  Claim C1, amended: when the response is a JSON object text (from its opening to its
  closing brace) between a prose without \<^verbatim>\<open>{\<close> before it and a prose without \<^verbatim>\<open>}\<close>
  after it, the pattern search extracts exactly that text and the summarizer returns the
  object it decodes to.
\<close>

theorem object_in_brace_free_prose_extracted:
  assumes "llm_create w (tr @ [LlmCreate (take 3000 content)]) = LlmContent (pre @ obj @ post)"
    and "obj = CHR ''{'' # mid @ [CHR ''}'']"
    and "CHR ''{'' \<notin> set pre" and "CHR ''}'' \<notin> set post"
    and "json_loads obj = Some v"
  shows "json_match (pre @ obj @ post) = Some obj
         \<and> analyze_dump w True content tr = (Returns v, tr @ [LlmCreate (take 3000 content)])"
proof -
  have m: "json_match (pre @ obj @ post) = Some obj"
    using json_match_wrapped [OF assms(3,4), of mid] by (simp add: assms(2))
  show ?thesis
    using m assms(1,5) by (simp add: analyze_dump_cases)
qed

theorem object_in_brace_free_prose_extracted_witness:
  \<open>llm_create world_prose [LlmCreate (take 3000 ''dump'')]
     = LlmContent (''Here is the analysis: '' @ ''{"risk_level": "Low"}'' @ '' Hope it helps.'')
   \<and> json_loads ''{"risk_level": "Low"}'' = Some (JObj [(ustr ''risk_level'', JStr (ustr ''Low''))])
   \<and> analyze_dump world_prose True ''dump'' []
       = (Returns (JObj [(ustr ''risk_level'', JStr (ustr ''Low''))]), [LlmCreate ''dump''])\<close>
proof -
  have l: \<open>llm_create world_prose ([] @ [LlmCreate (take 3000 ''dump'')])
     = LlmContent (''Here is the analysis: '' @ ''{"risk_level": "Low"}'' @ '' Hope it helps.'')\<close>
    by (simp add: world_prose_def mk_world_def)
  have o: \<open>''{"risk_level": "Low"}'' = CHR ''{'' # ''"risk_level": "Low"'' @ [CHR ''}'']\<close>
    by simp
  have p: "CHR ''{'' \<notin> set ''Here is the analysis: ''" by simp
  have q: "CHR ''}'' \<notin> set '' Hope it helps.''" by simp
  from object_in_brace_free_prose_extracted [OF l o p q loads_low] l loads_low
  show ?thesis by simp
qed

section \<open>The trace of a run\<close>

text \<open>
  Every operation only adds events to the trace, and only the loop body writes the line
  that opens a record. So the opening lines in the trace of the loop are those of the
  records it went through, in order.
\<close>

lemma quiet_refl: "quiet_step tr tr"
  by (simp add: quiet_step_def)

lemma quiet_events: "filter is_file_header evs = [] \<Longrightarrow> quiet_step tr (tr @ evs)"
  by (auto simp add: quiet_step_def)

lemma quiet_trans: "quiet_step a b \<Longrightarrow> quiet_step b c \<Longrightarrow> quiet_step a c"
  by (auto simp add: quiet_step_def)

lemma quiet_after: "filter is_file_header evs = [] \<Longrightarrow> quiet_step (tr @ evs) tr' \<Longrightarrow> quiet_step tr tr'"
  using quiet_events quiet_trans by blast

lemma get_preview_quiet: "quiet_step tr (snd (get_preview w d tr))"
proof (cases "preview_outcome w d tr")
  case HttpException
  then show ?thesis
    by (simp add: get_preview_exception preview_request_def quiet_events)
next
  case (HttpResponse res)
  show ?thesis
  proof (cases "status_code res = 200 \<and> length (res_text res) > 10")
    case True
    with HttpResponse show ?thesis
      by (simp add: get_preview_accepted preview_request_def quiet_events)
  next
    case False
    with HttpResponse show ?thesis
      by (simp add: get_preview_fallback preview_request_def view_request_def quiet_events)
  qed
qed

lemma analyze_dump_quiet: "quiet_step tr (snd (analyze_dump w active content tr))"
proof (cases active)
  case False
  then show ?thesis by (simp add: analyze_dump_def quiet_refl)
next
  case True
  then show ?thesis
    by (auto simp add: analyze_dump_cases quiet_events
        split: llm_outcome.splits option.splits)
qed

lemma print_creds_quiet: "quiet_step tr (snd (print_creds cs tr))"
proof (induction cs arbitrary: tr)
  case Nil
  then show ?case by (simp add: quiet_refl)
next
  case (Cons c cs)
  have "quiet_step tr (snd (print_creds cs (tr @ [Print p])))" for p
    by (rule quiet_after [OF _ Cons.IH]) simp
  then show ?case
    by (auto simp add: quiet_refl split: option.splits)
qed

lemma show_analysis_quiet: "quiet_step tr (snd (show_analysis analysis tr))"
proof -
  have p: "quiet_step tr (snd (print_creds cs (tr @ [Print a, Print b, Print c])))" for cs a b c
    by (rule quiet_after [OF _ print_creds_quiet]) simp
  show ?thesis
    using p
    by (auto simp add: show_analysis_def Let_def quiet_refl quiet_events
        split: option.splits)
qed

lemma handle_content_quiet: "quiet_step tr (snd (handle_content w active content tr))"
proof (cases "str_truthy content")
  case False
  then show ?thesis
    by (auto simp add: handle_content_def quiet_events split: option.splits)
next
  case True
  then obtain c where c: "content = Some c" and ne: "c \<noteq> []"
    by (cases content) auto
  define tr1 where "tr1 = tr @ [Print (PreviewRaw (take 100 c)), Log Info SendingToAI]"
  have 1: "quiet_step tr tr1"
    by (simp add: tr1_def quiet_events)
  have 2: "quiet_step tr1 (snd (analyze_dump w active c tr1))"
    by (rule analyze_dump_quiet)
  obtain f tr2 where a: "analyze_dump w active c tr1 = (f, tr2)"
    by (cases "analyze_dump w active c tr1")
  have 3: "quiet_step tr tr2"
    using 1 2 a quiet_trans by fastforce
  have 4: "quiet_step tr (snd (show_analysis v tr2))" for v
    using 3 show_analysis_quiet quiet_trans by blast
  show ?thesis
    using c ne a 3 4
    by (cases f) (simp_all add: handle_content_def tr1_def Let_def)
qed

lemma process_record_dict:
  "quiet_step (tr @ [Print Separator, file_header idx d])
     (snd (process_record w active idx (JObj d) tr))"
proof -
  define tr1 where "tr1 = tr @ [Print Separator, file_header idx d]"
  obtain f tr2 where g: "get_preview w d tr1 = (f, tr2)"
    by (cases "get_preview w d tr1")
  have 1: "quiet_step tr1 tr2"
    using get_preview_quiet [of tr1 w d] g by simp
  have 2: "quiet_step tr1 (snd (handle_content w active c tr2))" for c
    using 1 handle_content_quiet quiet_trans by blast
  have "quiet_step tr1 (snd (process_record w active idx (JObj d) tr))"
    using g 1 2
    by (cases f) (simp_all add: process_record_def Let_def tr1_def file_header_def)
  then show ?thesis
    by (simp add: tr1_def)
qed

lemma process_record_other:
  "\<forall>d. item \<noteq> JObj d \<Longrightarrow> process_record w active idx item tr = (Raises, tr)"
  by (cases item) (simp_all add: process_record_def)

lemma process_record_extends: "\<exists>evs. snd (process_record w active idx item tr) = tr @ evs"
proof (cases "\<exists>d. item = JObj d")
  case True
  then obtain d where "item = JObj d" by blast
  then show ?thesis
    using process_record_dict [of tr idx d w active]
    by (auto simp add: quiet_step_def)
next
  case False
  then show ?thesis
    by (simp add: process_record_other)
qed

lemma process_records_extends:
  "\<exists>evs. snd (process_records w active idx items tr) = tr @ evs"
proof (induction items arbitrary: idx tr)
  case Nil
  then show ?case by simp
next
  case (Cons item items)
  obtain f tr1 where p: "process_record w active idx item tr = (f, tr1)"
    by (cases "process_record w active idx item tr")
  obtain evs1 where e1: "tr1 = tr @ evs1"
    using process_record_extends [of w active idx item tr] p by auto
  obtain evs2 where e2: "snd (process_records w active (Suc idx) items tr1) = tr1 @ evs2"
    using Cons.IH by blast
  show ?case
    using p e1 e2 by (cases f) auto
qed

lemma process_records_ending:
  "fst (process_records w active idx items tr) \<noteq> Exited n"
proof (induction items arbitrary: idx tr)
  case Nil
  then show ?case by simp
next
  case (Cons item items)
  obtain f tr1 where p: "process_record w active idx item tr = (f, tr1)"
    by (cases "process_record w active idx item tr")
  show ?case
    using p Cons.IH by (cases f) auto
qed

lemma process_records_headers:
  "\<exists>k evs. k \<le> length ds
     \<and> snd (process_records w active idx (map JObj ds) tr) = tr @ evs
     \<and> filter is_file_header evs = take k (file_headers idx ds)
     \<and> (fst (process_records w active idx (map JObj ds) tr) = Finished \<longrightarrow> k = length ds)"
proof (induction ds arbitrary: idx tr)
  case Nil
  then show ?case by simp
next
  case (Cons d ds)
  obtain f tr1 where p: "process_record w active idx (JObj d) tr = (f, tr1)"
    by (cases "process_record w active idx (JObj d) tr")
  obtain evs1 where e1: "tr1 = tr @ [Print Separator, file_header idx d] @ evs1"
    and q1: "filter is_file_header evs1 = []"
    using process_record_dict [of tr idx d w active] p
    by (auto simp add: quiet_step_def)
  have h: "is_file_header (file_header idx d)"
    by (simp add: file_header_def)
  show ?case
  proof (cases "f = Raises")
    case True
    have "snd (process_records w active idx (map JObj (d # ds)) tr) = tr @ [Print Separator, file_header idx d] @ evs1"
      using p e1 True by simp
    moreover have "filter is_file_header ([Print Separator, file_header idx d] @ evs1)
        = take 1 (file_headers idx (d # ds))"
      using q1 h by simp
    moreover have "fst (process_records w active idx (map JObj (d # ds)) tr) \<noteq> Finished"
      using p True by simp
    ultimately show ?thesis
      by (intro exI [of _ 1] exI [of _ "[Print Separator, file_header idx d] @ evs1"]) simp
  next
    case False
    then have r: "process_records w active idx (map JObj (d # ds)) tr
        = process_records w active (Suc idx) (map JObj ds) tr1"
      using p by (cases f) simp_all
    obtain k evs where k: "k \<le> length ds"
      and e: "snd (process_records w active (Suc idx) (map JObj ds) tr1) = tr1 @ evs"
      and fl: "filter is_file_header evs = take k (file_headers (Suc idx) ds)"
      and fin: "fst (process_records w active (Suc idx) (map JObj ds) tr1) = Finished \<longrightarrow> k = length ds"
      using Cons.IH [of "Suc idx" tr1] by blast
    show ?thesis
      using k e fl fin r e1 q1 h
      by (intro exI [of _ "Suc k"] exI [of _ "[Print Separator, file_header idx d] @ evs1 @ evs"]) simp
  qed
qed

lemma search_quiet:
  "\<exists>evs. snd (search w term tr) = tr @ [Log Info (Searching term), Http (SearchReq term)] @ evs
         \<and> filter is_file_header evs = []"
  by (auto simp add: search_def search_try_def try_except_def or_return_def Let_def
      split: http_outcome.splits option.splits)

lemma get_results_trace: "snd (get_results w sid tr) = tr @ [Http (ResultReq sid)]"
  by (auto simp add: get_results_def get_results_try_def try_except_def Let_def
      split: http_outcome.splits option.splits)


lemma main_after_search:
  assumes "str_truthy (INTELX_API_KEY w)"
    and "tr0 = (if str_truthy (OPENAI_API_KEY w) then tr else tr @ [Log Warn MissingOpenaiKey])"
  shows "(\<exists>evs. snd (main w target tr)
             = tr0 @ [Log Info (Searching target), Http (SearchReq target)] @ evs)
         \<and> fst (main w target tr) \<noteq> Exited n"
proof -
  obtain f1 tr1 where s: "search w target tr0 = (f1, tr1)"
    by (cases "search w target tr0")
  obtain e1 where e1: "tr1 = tr0 @ [Log Info (Searching target), Http (SearchReq target)] @ e1"
    using search_quiet [of w target tr0] s by auto
  define f2 where "f2 sid = fst (get_results w sid tr1)" for sid
  define tr2 where "tr2 sid = snd (get_results w sid tr1)" for sid
  have g: "get_results w sid tr1 = (f2 sid, tr2 sid)" for sid
    by (simp add: f2_def tr2_def)
  have e2: "tr2 sid = tr1 @ [Http (ResultReq sid)]" for sid
    using get_results_trace [of w sid tr1] g by simp
  have p: "\<exists>evs. snd (process_records w a 0 items (tr2 sid @ [Log Success (Found m)]))
             = tr0 @ [Log Info (Searching target), Http (SearchReq target)] @ evs" for a items sid m
    using process_records_extends [of w a 0 items "tr2 sid @ [Log Success (Found m)]"] e1 e2
    by auto
  have m: "main w target tr =
     (case f1 of
        Returns sid \<Rightarrow>
          if \<not> py_truthy sid then (Finished, tr1 @ [Log Error NoResults])
          else
            (case f2 sid of
               Returns records \<Rightarrow>
                 (case py_len records of
                    None \<Rightarrow> (Uncaught, tr2 sid)
                  | Some n \<Rightarrow>
                      (case py_slice records 5 of
                         None \<Rightarrow> (Uncaught, tr2 sid @ [Log Success (Found n)])
                       | Some top5 \<Rightarrow>
                           (case py_iter top5 of
                              None \<Rightarrow> (Uncaught, tr2 sid @ [Log Success (Found n)])
                            | Some items \<Rightarrow>
                                process_records w (str_truthy (OPENAI_API_KEY w)) 0 items
                                  (tr2 sid @ [Log Success (Found n)]))))
             | Raises \<Rightarrow> (Uncaught, tr2 sid)
             | Falls \<Rightarrow> (Uncaught, tr2 sid))
      | Raises \<Rightarrow> (Uncaught, tr1)
      | Falls \<Rightarrow> (Uncaught, tr1))"
    using assms(1) s g
    by (simp add: main_def assms(2) Let_def split: flow.splits option.splits)
  show ?thesis
    unfolding m using e1 e2 p process_records_ending
    by (auto split: flow.splits option.splits)
qed

section \<open>Missing credentials\<close>





section \<open>The records the driver processes\<close>

text \<open>
  For a listing of the records \<open>ds\<close>, the records that the driver begins are a prefix of
  the first five, in the order of the listing, and all of \<open>min (length ds) 5\<close> when the
  run finishes.
\<close>

lemma completed_run_processes_first_five:
  assumes "str_truthy (INTELX_API_KEY w)"
    and "tr0 = (if str_truthy (OPENAI_API_KEY w) then tr else tr @ [Log Warn MissingOpenaiKey])"
    and "search w target tr0 = (Returns sid, tr1)"
    and "py_truthy sid"
    and "get_results w sid tr1 = (Returns (JArr (map JObj ds)), tr2)"
  shows "\<exists>k \<le> min (length ds) 5.
           filter is_file_header (new_events tr (main w target tr))
             = take k (file_headers 0 (take 5 ds))
           \<and> (fst (main w target tr) = Finished \<longrightarrow> k = min (length ds) 5)"
proof -
  obtain e1 where e1: "tr1 = tr0 @ [Log Info (Searching target), Http (SearchReq target)] @ e1"
    and q1: "filter is_file_header e1 = []"
    using search_quiet [of w target tr0] assms(3) by auto
  have e2: "tr2 = tr1 @ [Http (ResultReq sid)]"
    using get_results_trace [of w sid tr1] assms(5) by simp
  define tr3 where "tr3 = tr2 @ [Log Success (Found (length ds))]"
  have "\<exists>q. tr3 = tr @ q \<and> filter is_file_header q = []"
  proof (cases "str_truthy (OPENAI_API_KEY w)")
    case True
    then show ?thesis
      using e1 q1 e2 by (simp add: tr3_def assms(2))
  next
    case False
    then show ?thesis
      using e1 q1 e2 by (simp add: tr3_def assms(2))
  qed
  then obtain q where q: "tr3 = tr @ q" and qq: "filter is_file_header q = []"
    by blast
  have m: "main w target tr
      = process_records w (str_truthy (OPENAI_API_KEY w)) 0 (map JObj (take 5 ds)) tr3"
    using assms(1,3,4,5) by (simp add: main_def assms(2) Let_def tr3_def take_map)
  obtain k evs where k: "k \<le> length (take 5 ds)"
    and e: "snd (main w target tr) = tr3 @ evs"
    and fl: "filter is_file_header evs = take k (file_headers 0 (take 5 ds))"
    and fin: "fst (main w target tr) = Finished \<longrightarrow> k = length (take 5 ds)"
    using process_records_headers [of "take 5 ds" w "str_truthy (OPENAI_API_KEY w)" 0 tr3]
    unfolding m by blast
  have "filter is_file_header (new_events tr (main w target tr))
          = take k (file_headers 0 (take 5 ds))"
    using e q qq fl by (simp add: new_events_def)
  then show ?thesis
    using k fin by (intro exI [of _ k]) (auto simp add: min_def)
qed

text \<open>
  Claim C6: for a listing of N records the driver processes exactly min(N, 5) of them, in
  order. The loop is built for it (\<^verbatim>\<open>records[:5]\<close>, \<^verbatim>\<open>continue\<close> on a missing
  preview, a warning on a missing analysis), but the lines that print a finding are not
  guarded: when the completion gives a credential that is not an object,
  \<^verbatim>\<open>c.get('email')\<close> raises \<^verbatim>\<open>AttributeError\<close>, nothing catches it, and the run ends
  inside the first record. Two records were listed; the second is never begun.
\<close>

theorem string_credentials_end_the_loop:
  "get_results world_string_credentials (JStr (ustr ''abc123''))
      [Log Info (Searching ''example.com''), Http (SearchReq ''example.com'')]
     = (Returns (JArr [JObj record1, JObj record2]),
        [Log Info (Searching ''example.com''), Http (SearchReq ''example.com''),
         Http (ResultReq (JStr (ustr ''abc123'')))])
   \<and> main world_string_credentials ''example.com'' [] =
       (Uncaught,
        [Log Info (Searching ''example.com''), Http (SearchReq ''example.com''),
         Http (ResultReq (JStr (ustr ''abc123''))), Log Success (Found 2),
         Print Separator,
         Log Info (AnalysingFile 1 (JStr (ustr ''dump.txt'')) (JStr (ustr ''2024-01-01''))),
         Http (PreviewReq (JStr (ustr ''d1''))),
         Print (PreviewRaw ''alice@example.com:hunter2''), Log Info SendingToAI,
         LlmCreate ''alice@example.com:hunter2'',
         Print (Risk Yellow (JStr (ustr ''Unknown''))), Print (Summary JNull),
         Print (CredCount 1)])"
  by code_simp

section \<open>Exceptions that leave an operation\<close>

text \<open>
  On a console that writes every line, the operations given the console are the ones of
  the sections above.
\<close>

lemma search_try_on_total: "\<forall>t. con t \<Longrightarrow> search_try_on con w term tr = search_try w term tr"
  by (auto simp add: search_try_on_def search_try_def log_def Let_def split: http_outcome.splits)

lemma search_on_total: "\<forall>t. con t \<Longrightarrow> search_on con w term tr = search w term tr"
proof -
  assume c: "\<forall>t. con t"
  have h: "log con Error IntelxException = (\<lambda>tr'. (Falls, tr' @ [Log Error IntelxException]))"
    using c by (simp add: log_def fun_eq_iff)
  have l: "(log con Info (Searching term) tr :: unit flow \<times> trace)
      = (Falls, tr @ [Log Info (Searching term)])"
    using c by (simp add: log_def)
  show ?thesis
    using c by (simp add: search_on_def search_def search_try_on_total l h)
qed

lemma analyze_dump_on_total:
  "\<forall>t. con t \<Longrightarrow> analyze_dump_on con w active content tr = analyze_dump w active content tr"
proof -
  assume c: "\<forall>t. con t"
  have h: "log con Error AIError = (\<lambda>tr'. (Falls, tr' @ [Log Error AIError]))"
    using c by (simp add: log_def fun_eq_iff)
  show ?thesis
    by (simp add: analyze_dump_on_def analyze_dump_def h)
qed

lemma search_on_first_line_refused:
  "\<not> con (tr @ [Log Info (Searching term)]) \<Longrightarrow> search_on con w term tr = (Raises, tr)"
  by (simp add: search_on_def log_def)

lemma search_on_raises_iff:
  "fst (search_on con w term tr) = Raises \<longleftrightarrow>
     \<not> con (tr @ [Log Info (Searching term)])
     \<or> (\<not> con (tr @ [Log Info (Searching term), Http (SearchReq term), Log Error IntelxException])
        \<and> (case search_outcome w term tr of
              HttpException \<Rightarrow> True
            | HttpResponse res \<Rightarrow>
                if status_code res = 200
                then (case json_body res of Some (JObj body) \<Rightarrow> False | _ \<Rightarrow> True)
                else \<not> con (tr @ [Log Info (Searching term), Http (SearchReq term),
                                  Log Error (SearchError (status_code res))])))"
proof (cases "con (tr @ [Log Info (Searching term)])")
  case False
  then show ?thesis by (simp add: search_on_first_line_refused)
next
  case True
  show ?thesis
  proof (cases "search_outcome w term tr")
    case HttpException
    then show ?thesis
      using True
      by (simp add: search_on_def search_try_on_def log_def search_outcome_def
          try_except_def or_return_def)
  next
    case (HttpResponse res)
    show ?thesis
    proof (cases "status_code res = 200")
      case s: True
      show ?thesis
      proof (cases "json_body res")
        case None
        then show ?thesis
          using True HttpResponse s
          by (simp add: search_on_def search_try_on_def log_def search_outcome_def
              try_except_def or_return_def)
      next
        case (Some j)
        then show ?thesis
          using True HttpResponse s
          by (cases j)
             (simp_all add: search_on_def search_try_on_def log_def search_outcome_def
               try_except_def or_return_def)
      qed
    next
      case s: False
      then show ?thesis
        using True HttpResponse
        by (auto simp add: search_on_def search_try_on_def log_def search_outcome_def
            try_except_def or_return_def Let_def)
    qed
  qed
qed

lemma analyze_dump_on_raises_iff:
  "fst (analyze_dump_on con w active content tr) = Raises \<longleftrightarrow>
     active
     \<and> \<not> con (tr @ [LlmCreate (take 3000 content), Log Error AIError])
     \<and> (case completion w content tr of
           LlmException \<Rightarrow> True
         | LlmContent raw \<Rightarrow>
             (case json_match raw of None \<Rightarrow> False | Some g \<Rightarrow> json_loads g = None))"
  by (auto simp add: analyze_dump_on_def analyze_dump_try_def log_def completion_def
      try_except_def or_return_def Let_def split: llm_outcome.splits option.splits)

lemma search_result:
  "fst (search w term tr) =
     Returns (case search_outcome w term tr of
                HttpException \<Rightarrow> JNull
              | HttpResponse res \<Rightarrow>
                  if status_code res = 200
                  then (case json_body res of
                          Some (JObj body) \<Rightarrow> dict_get body (ustr ''id'') JNull
                        | _ \<Rightarrow> JNull)
                  else JNull)"
proof (cases "search_outcome w term tr")
  case HttpException
  then show ?thesis
    by (simp add: search_def search_try_def search_outcome_def try_except_def or_return_def)
next
  case (HttpResponse res)
  show ?thesis
  proof (cases "json_body res")
    case None
    then show ?thesis
      using HttpResponse
      by (simp add: search_def search_try_def search_outcome_def try_except_def or_return_def)
  next
    case (Some j)
    then show ?thesis
      using HttpResponse
      by (cases j)
         (simp_all add: search_def search_try_def search_outcome_def try_except_def or_return_def)
  qed
qed

lemma get_results_result:
  "get_results w sid tr =
     (Returns (case listing_outcome w sid tr of
                 HttpException \<Rightarrow> JArr []
               | HttpResponse res \<Rightarrow>
                   if status_code res = 200
                   then (case json_body res of
                           Some (JObj body) \<Rightarrow> dict_get body (ustr ''records'') (JArr [])
                         | _ \<Rightarrow> JArr [])
                   else JArr []),
      tr @ [Http (ResultReq sid)])"
proof (cases "listing_outcome w sid tr")
  case HttpException
  then show ?thesis
    by (simp add: get_results_def get_results_try_def listing_outcome_def try_except_def)
next
  case (HttpResponse res)
  show ?thesis
  proof (cases "json_body res")
    case None
    then show ?thesis
      using HttpResponse
      by (simp add: get_results_def get_results_try_def listing_outcome_def try_except_def)
  next
    case (Some j)
    then show ?thesis
      using HttpResponse
      by (cases j)
         (simp_all add: get_results_def get_results_try_def listing_outcome_def try_except_def)
  qed
qed

lemma get_preview_result:
  "fst (get_preview w item tr) =
     Returns (case preview_outcome w item tr of
                HttpException \<Rightarrow> None
              | HttpResponse res \<Rightarrow>
                  if status_code res = 200 \<and> length (res_text res) > 10
                  then Some (res_text res)
                  else (case view_outcome w item tr of
                          HttpException \<Rightarrow> None
                        | HttpResponse rv \<Rightarrow>
                            if status_code rv = 200 then Some (res_text rv) else None))"
proof (cases "preview_outcome w item tr")
  case HttpException
  then show ?thesis by (simp add: get_preview_exception)
next
  case (HttpResponse res)
  show ?thesis
  proof (cases "status_code res = 200 \<and> length (res_text res) > 10")
    case True
    then show ?thesis
      using HttpResponse get_preview_accepted [OF HttpResponse] by simp
  next
    case False
    show ?thesis
      unfolding get_preview_fallback [OF HttpResponse False]
      using HttpResponse False
      by (cases "view_outcome w item tr") auto
  qed
qed

lemma get_preview_of_raises_iff:
  "fst (get_preview_of w item tr) = Raises \<longleftrightarrow> (\<forall>d. item \<noteq> JObj d)"
  using get_preview_result [of w _ tr]
  by (cases item) (simp_all add: get_preview_of_def)

lemma analyze_dump_result:
  "fst (analyze_dump w active content tr) =
     Returns (if \<not> active then JNull
              else case completion w content tr of
                     LlmException \<Rightarrow> JNull
                   | LlmContent raw \<Rightarrow>
                       (case json_match raw of
                          None \<Rightarrow> JNull
                        | Some g \<Rightarrow> (case json_loads g of None \<Rightarrow> JNull | Some v \<Rightarrow> v)))"
proof (cases active)
  case False
  then show ?thesis by (simp add: analyze_dump_def)
next
  case True
  then show ?thesis
    by (simp add: analyze_dump_cases completion_def split: llm_outcome.splits option.splits)
qed

lemma get_results_on_unanswered:
  "\<not> answered (tr @ [Http (ResultReq sid)]) \<Longrightarrow> get_results_on answered w sid tr = None"
  by (simp add: get_results_on_def)

text \<open>
  Claim C10, as stated: none of \<^verbatim>\<open>search\<close>, \<^verbatim>\<open>get_results\<close>, \<^verbatim>\<open>get_preview\<close> and
  \<^verbatim>\<open>analyze_dump\<close> ever lets an exception out. It fails for the two operations that
  write log lines outside their \<^verbatim>\<open>try\<close> block. On a stream that encodes in ASCII, the
  search request raises, the handler of \<^verbatim>\<open>search\<close> writes its line (line 90), and
  \<^verbatim>\<open>print\<close> raises \<^verbatim>\<open>UnicodeEncodeError\<close> inside the handler; for a term with a
  character beyond ASCII the line before the \<^verbatim>\<open>try\<close> (line 75) raises before any
  request; and the handler of \<^verbatim>\<open>analyze_dump\<close> (line 169) raises after a failed
  completion.
\<close>

theorem unwritable_log_line_counterexample:
  "search_outcome world_down ''example.com'' [] = HttpException
   \<and> search_on ascii_console world_down ''example.com'' []
       = (Raises, [Log Info (Searching ''example.com''), Http (SearchReq ''example.com'')])
   \<and> search_on ascii_console world_down (''caf'' @ [CHR 0xE9] @ ''.com'') [] = (Raises, [])
   \<and> completion world_down ''dump'' [] = LlmException
   \<and> analyze_dump_on ascii_console world_down True ''dump'' [] = (Raises, [LlmCreate ''dump''])"
  by code_simp

text \<open>
  Claim C10, amended. \<^verbatim>\<open>search\<close> and \<^verbatim>\<open>analyze_dump\<close> let an exception out exactly
  when \<^verbatim>\<open>print\<close> cannot write one of their lines outside the \<^verbatim>\<open>try\<close>: for
  \<^verbatim>\<open>search\<close> the line before the \<^verbatim>\<open>try\<close>, or the line of the handler after a failure
  in the \<^verbatim>\<open>try\<close> (the request raised, the body of a 200 is no JSON object, or the
  line about another status could not be written); for \<^verbatim>\<open>analyze_dump\<close> the line of
  the handler after the completion raised or the extracted text did not parse. On a
  console that writes every line they return on every path, with \<^verbatim>\<open>None\<close> on every
  failure. \<^verbatim>\<open>get_results\<close>, whenever its request (which has no timeout) is answered or
  raises, returns the listed records, and the empty list on every failure;
  \<^verbatim>\<open>get_preview\<close>, given a dict, returns the accepted text, and \<^verbatim>\<open>None\<close> on every
  failure.
\<close>

theorem operations_return_null_on_failure:
  "(fst (search_on con w term tr) = Raises \<longleftrightarrow>
      \<not> con (tr @ [Log Info (Searching term)])
      \<or> (\<not> con (tr @ [Log Info (Searching term), Http (SearchReq term), Log Error IntelxException])
         \<and> (case search_outcome w term tr of
               HttpException \<Rightarrow> True
             | HttpResponse res \<Rightarrow>
                 if status_code res = 200
                 then (case json_body res of Some (JObj body) \<Rightarrow> False | _ \<Rightarrow> True)
                 else \<not> con (tr @ [Log Info (Searching term), Http (SearchReq term),
                                   Log Error (SearchError (status_code res))]))))
   \<and> (fst (analyze_dump_on con w active content tr) = Raises \<longleftrightarrow>
        active
        \<and> \<not> con (tr @ [LlmCreate (take 3000 content), Log Error AIError])
        \<and> (case completion w content tr of
              LlmException \<Rightarrow> True
            | LlmContent raw \<Rightarrow>
                (case json_match raw of None \<Rightarrow> False | Some g \<Rightarrow> json_loads g = None)))
   \<and> ((\<forall>t. con t) \<longrightarrow>
         search_on con w term tr = search w term tr
         \<and> analyze_dump_on con w active content tr = analyze_dump w active content tr)
   \<and> fst (search w term tr) =
       Returns (case search_outcome w term tr of
                  HttpException \<Rightarrow> JNull
                | HttpResponse res \<Rightarrow>
                    if status_code res = 200
                    then (case json_body res of
                            Some (JObj body) \<Rightarrow> dict_get body (ustr ''id'') JNull
                          | _ \<Rightarrow> JNull)
                    else JNull)
   \<and> fst (analyze_dump w active content tr) =
       Returns (if \<not> active then JNull
                else case completion w content tr of
                       LlmException \<Rightarrow> JNull
                     | LlmContent raw \<Rightarrow>
                         (case json_match raw of
                            None \<Rightarrow> JNull
                          | Some g \<Rightarrow> (case json_loads g of None \<Rightarrow> JNull | Some v \<Rightarrow> v)))
   \<and> (answered (tr @ [Http (ResultReq sid)]) \<longrightarrow>
         get_results_on answered w sid tr =
           Some (Returns (case listing_outcome w sid tr of
                            HttpException \<Rightarrow> JArr []
                          | HttpResponse res \<Rightarrow>
                              if status_code res = 200
                              then (case json_body res of
                                      Some (JObj body) \<Rightarrow> dict_get body (ustr ''records'') (JArr [])
                                    | _ \<Rightarrow> JArr [])
                              else JArr []),
                 tr @ [Http (ResultReq sid)]))
   \<and> fst (get_preview_of w (JObj item) tr) =
       Returns (case preview_outcome w item tr of
                  HttpException \<Rightarrow> None
                | HttpResponse res \<Rightarrow>
                    if status_code res = 200 \<and> length (res_text res) > 10
                    then Some (res_text res)
                    else (case view_outcome w item tr of
                            HttpException \<Rightarrow> None
                          | HttpResponse rv \<Rightarrow>
                              if status_code rv = 200 then Some (res_text rv) else None))"
proof (intro conjI)
  show "fst (search_on con w term tr) = Raises \<longleftrightarrow>
      \<not> con (tr @ [Log Info (Searching term)])
      \<or> (\<not> con (tr @ [Log Info (Searching term), Http (SearchReq term), Log Error IntelxException])
         \<and> (case search_outcome w term tr of
               HttpException \<Rightarrow> True
             | HttpResponse res \<Rightarrow>
                 if status_code res = 200
                 then (case json_body res of Some (JObj body) \<Rightarrow> False | _ \<Rightarrow> True)
                 else \<not> con (tr @ [Log Info (Searching term), Http (SearchReq term),
                                   Log Error (SearchError (status_code res))])))"
    by (rule search_on_raises_iff)
  show "fst (analyze_dump_on con w active content tr) = Raises \<longleftrightarrow>
        active
        \<and> \<not> con (tr @ [LlmCreate (take 3000 content), Log Error AIError])
        \<and> (case completion w content tr of
              LlmException \<Rightarrow> True
            | LlmContent raw \<Rightarrow>
                (case json_match raw of None \<Rightarrow> False | Some g \<Rightarrow> json_loads g = None))"
    by (rule analyze_dump_on_raises_iff)
  show "(\<forall>t. con t) \<longrightarrow>
         search_on con w term tr = search w term tr
         \<and> analyze_dump_on con w active content tr = analyze_dump w active content tr"
    by (simp add: search_on_total analyze_dump_on_total)
  show "fst (search w term tr) =
       Returns (case search_outcome w term tr of
                  HttpException \<Rightarrow> JNull
                | HttpResponse res \<Rightarrow>
                    if status_code res = 200
                    then (case json_body res of
                            Some (JObj body) \<Rightarrow> dict_get body (ustr ''id'') JNull
                          | _ \<Rightarrow> JNull)
                    else JNull)"
    by (rule search_result)
  show "fst (analyze_dump w active content tr) =
       Returns (if \<not> active then JNull
                else case completion w content tr of
                       LlmException \<Rightarrow> JNull
                     | LlmContent raw \<Rightarrow>
                         (case json_match raw of
                            None \<Rightarrow> JNull
                          | Some g \<Rightarrow> (case json_loads g of None \<Rightarrow> JNull | Some v \<Rightarrow> v)))"
    by (rule analyze_dump_result)
  show "answered (tr @ [Http (ResultReq sid)]) \<longrightarrow>
         get_results_on answered w sid tr =
           Some (Returns (case listing_outcome w sid tr of
                            HttpException \<Rightarrow> JArr []
                          | HttpResponse res \<Rightarrow>
                              if status_code res = 200
                              then (case json_body res of
                                      Some (JObj body) \<Rightarrow> dict_get body (ustr ''records'') (JArr [])
                                    | _ \<Rightarrow> JArr [])
                              else JArr []),
                 tr @ [Http (ResultReq sid)])"
    by (simp add: get_results_on_def get_results_result)
  show "fst (get_preview_of w (JObj item) tr) =
       Returns (case preview_outcome w item tr of
                  HttpException \<Rightarrow> None
                | HttpResponse res \<Rightarrow>
                    if status_code res = 200 \<and> length (res_text res) > 10
                    then Some (res_text res)
                    else (case view_outcome w item tr of
                            HttpException \<Rightarrow> None
                          | HttpResponse rv \<Rightarrow>
                              if status_code rv = 200 then Some (res_text rv) else None))"
    by (simp add: get_preview_of_def get_preview_result)
qed

theorem operations_return_null_on_failure_witness:
  "search_on (\<lambda>t. True) world_down ''example.com'' [] = search world_down ''example.com'' []
   \<and> fst (search world_down ''example.com'' []) = Returns JNull
   \<and> fst (analyze_dump world_down True ''dump'' []) = Returns JNull
   \<and> get_results_on (\<lambda>t. True) world_down (JStr (ustr ''abc123'')) []
       = Some (Returns (JArr []), [Http (ResultReq (JStr (ustr ''abc123'')))])
   \<and> fst (get_preview_of world_down (JObj record1) []) = Returns None"
  using operations_return_null_on_failure [of "\<lambda>t. True" world_down "''example.com''" "[]"
      True "''dump''" "\<lambda>t. True" "JStr (ustr ''abc123'')" record1]
  by (simp add: search_outcome_def listing_outcome_def completion_def world_down_def world_simps)

end
